theory Spec2Isabelle
  imports Main
begin

section \<open>Version strings and update-level classification\<close>

text \<open>
  JavaScript's \<open>String.prototype.split\<close> with a one-character separator: the result is
  never empty (\<open>"".split(".")\<close> is \<open>[""]\<close>), and a trailing separator yields a trailing
  empty piece.
\<close>

fun split_on :: "char \<Rightarrow> string \<Rightarrow> string list" where
  "split_on c [] = [[]]"
| "split_on c (x # xs) =
     (if x = c then [] # split_on c xs
      else (case split_on c xs of
              [] \<Rightarrow> [[x]]
            | w # ws \<Rightarrow> (x # w) # ws))"

text \<open>
  Reading an array element: an index past the end gives \<open>undefined\<close>, which is
  \<open>None\<close> here; \<open>!==\<close> between two such reads is inequality of options.
\<close>

definition js_index :: "'a list \<Rightarrow> nat \<Rightarrow> 'a option" where
  "js_index xs n = (if n < length xs then Some (xs ! n) else None)"

text \<open>
  \<open>v || d\<close> for a value that is a string or \<open>null\<close>: \<open>null\<close> and the empty string are
  falsy.
\<close>

definition js_or :: "string option \<Rightarrow> string \<Rightarrow> string" where
  "js_or v d = (case v of None \<Rightarrow> d | Some s \<Rightarrow> if s = [] then d else s)"

datatype level = Major | Minor | Patch | NoLevel


text \<open>\<open>UpdateAnalyzer.getUpdateLevel\<close>: only the first two components are looked at.\<close>

definition getUpdateLevel :: "string option \<Rightarrow> string option \<Rightarrow> level" where
  "getUpdateLevel fromVersion toVersion =
     (let from = split_on (CHR ''.'') (js_or fromVersion ''0.0.0'');
          to = split_on (CHR ''.'') (js_or toVersion ''0.0.0'')
      in if js_index from 0 \<noteq> js_index to 0 then Major
         else if js_index from 1 \<noteq> js_index to 1 then Minor
         else Patch)"









section \<open>Records of the application's tables\<close>

text \<open>
  A \<open>sys_id\<close> is the platform's record identifier. A string field holds the empty string
  when it was never set; \<open>getValue\<close> reads an empty field as \<open>null\<close>, and \<open>null\<close>
  concatenated into a message is the text \<open>null\<close>. Date/time fields are \<open>None\<close> until
  stamped; time is in milliseconds.
\<close>

type_synonym sys_id = string

text \<open>\<open>gr.get(id)\<close> on a platform table: an empty (\<open>null\<close>) identifier finds no record.\<close>

definition gr_get :: "(sys_id \<rightharpoonup> 'r) \<Rightarrow> sys_id \<Rightarrow> 'r option" where
  "gr_get tbl key = (if key = [] then None else tbl key)"

definition getValue :: "string \<Rightarrow> string option" where
  "getValue s = (if s = [] then None else Some s)"

definition js_str :: "string option \<Rightarrow> string" where
  "js_str v = (case v of None \<Rightarrow> ''null'' | Some s \<Rightarrow> s)"

definition truthy :: "string option \<Rightarrow> bool" where
  "truthy v = (case v of None \<Rightarrow> False | Some s \<Rightarrow> s \<noteq> [])"

text \<open>Decimal rendering of a count inside a message.\<close>

definition digit_char :: "nat \<Rightarrow> char" where
  "digit_char d = ''0123456789'' ! d"

fun show_nat :: "nat \<Rightarrow> string" where
  "show_nat n = (if n < 10 then [digit_char n] else show_nat (n div 10) @ [digit_char (n mod 10)])"

declare show_nat.simps [simp del]

definition show_int :: "int \<Rightarrow> string" where
  "show_int i = (if i < 0 then CHR ''-'' # show_nat (nat (- i)) else show_nat (nat i))"

datatype batch_state =
  B_draft | B_scheduled | B_in_progress | B_completed | B_failed | B_partial | B_cancelled

datatype item_state = I_queued | I_installing | I_completed | I_failed | I_skipped

datatype activity_type =
  A_info | A_success | A_warning | A_error | A_progress | A_start | A_complete | A_milestone

datatype phase =
  Ph_preparation | Ph_validation | Ph_download | Ph_installation | Ph_post_install | Ph_cleanup

record package =
  pkg_id :: string
  pkg_requested_version :: string
  pkg_notes :: string

text \<open>
  The manifest is stored as \<open>JSON.stringify(manifest)\<close>; the model keeps the value that is
  serialised (name and notes are constants, the packages vary).
\<close>

type_synonym manifest = "package list"

record batch_request =
  br_requested_by :: string
  br_total_apps :: int
  br_state :: batch_state
  br_scheduled_start :: string
  br_install_notes :: string
  br_completed_apps :: int
  br_failed_apps :: int
  br_skipped_apps :: int
  br_overall_progress :: int
  br_actual_start :: "int option"
  br_actual_end :: "int option"
  br_duration_seconds :: int
  br_batch_manifest :: "manifest option"
  br_error_summary :: string
  br_progress_worker :: string

record batch_item =
  bi_sys_id :: sys_id
  bi_batch_request :: sys_id
  bi_application :: string
  bi_application_name :: string
  bi_app_version :: sys_id
  bi_from_version :: string
  bi_to_version :: string
  bi_update_level :: level
  bi_state :: item_state
  bi_install_order :: int
  bi_progress_percent :: int
  bi_status_message :: string
  bi_error_message :: string
  bi_start_time :: "int option"
  bi_end_time :: "int option"
  bi_duration_seconds :: int

record batch_summary =
  sum_completed :: nat
  sum_failed :: nat
  sum_skipped :: nat
  sum_total :: nat
  sum_durationSeconds :: int

text \<open>
  The details of a log entry are a text or, for the batch-complete entry,
  \<open>JSON.stringify(summary)\<close>, kept as the summary itself.
\<close>

datatype details = Details_text string | Details_summary batch_summary

record log_entry =
  le_batch_request :: sys_id
  le_batch_item :: "sys_id option"
  le_activity_type :: activity_type
  le_phase :: phase
  le_message :: string
  le_sequence :: nat
  le_details :: "details option"
  le_application_name :: "string option"
  le_progress_percent :: "int option"

text \<open>
  The application's three tables. Batch requests are looked up by \<open>sys_id\<close> only; batch
  items and activity log entries are kept in insertion order, which is the order an
  unordered query walks them in.
\<close>

record store =
  batch_requests :: "sys_id \<rightharpoonup> batch_request"
  batch_items :: "batch_item list"
  activity_log :: "log_entry list"

text \<open>
  What the platform answers: the rows of \<open>sys_app_version\<close> and \<open>sys_store_app\<close>, the
  current user, the \<open>sys_id\<close> a batch request gets on insert (\<open>None\<close> when the insert is
  aborted and \<open>insert()\<close> returns \<open>null\<close>), the \<open>sys_id\<close> of the n-th batch item row, and
  the \<open>String.prototype.trim\<close> of its script engine.
\<close>

record app_version =
  av_source_app_id :: string
  av_version :: string

record store_app =
  sa_display_value :: string
  sa_version :: string

record platform =
  pf_app_versions :: "sys_id \<rightharpoonup> app_version"
  pf_store_apps :: "sys_id \<rightharpoonup> store_app"
  pf_user_id :: string
  pf_user_display_name :: string
  pf_batch_insert :: "sys_id option"
  pf_item_id :: "nat \<Rightarrow> sys_id"
  pf_trim :: "string \<Rightarrow> string"

section \<open>ActivityLogger\<close>

text \<open>The logger instance: \<open>initialize\<close> sets its counter to zero.\<close>

record activity_logger =
  sequenceCounter :: nat

definition new_logger :: activity_logger where
  "new_logger = \<lparr>sequenceCounter = 0\<rparr>"

record log_options =
  lo_details :: "details option"
  lo_applicationName :: "string option"
  lo_progressPercent :: "int option"

definition no_options :: log_options where
  "no_options = \<lparr>lo_details = None, lo_applicationName = None, lo_progressPercent = None\<rparr>"

definition details_truthy :: "details option \<Rightarrow> bool" where
  "details_truthy d =
     (case d of None \<Rightarrow> False | Some (Details_text t) \<Rightarrow> t \<noteq> [] | Some (Details_summary _) \<Rightarrow> True)"

text \<open>\<open>ActivityLogger.log\<close>: the counter is incremented, then written as the sequence.\<close>

definition log ::
  "sys_id \<Rightarrow> sys_id option \<Rightarrow> activity_type \<Rightarrow> phase \<Rightarrow> string \<Rightarrow> log_options \<Rightarrow>
   activity_logger \<times> store \<Rightarrow> activity_logger \<times> store" where
  "log batchRequestId batchItemId activityType ph message options = (\<lambda>(lg, st).
     (let lg' = lg\<lparr>sequenceCounter := sequenceCounter lg + 1\<rparr>;
          gr = \<lparr>le_batch_request = batchRequestId,
                le_batch_item = (if truthy batchItemId then batchItemId else None),
                le_activity_type = activityType,
                le_phase = ph,
                le_message = message,
                le_sequence = sequenceCounter lg',
                le_details = (if details_truthy (lo_details options) then lo_details options else None),
                le_application_name =
                  (if truthy (lo_applicationName options) then lo_applicationName options else None),
                le_progress_percent = lo_progressPercent options\<rparr>
      in (lg', st\<lparr>activity_log := activity_log st @ [gr]\<rparr>)))"

definition logAppInstallComplete ::
  "sys_id \<Rightarrow> sys_id option \<Rightarrow> string option \<Rightarrow> string option \<Rightarrow> int \<Rightarrow>
   activity_logger \<times> store \<Rightarrow> activity_logger \<times> store" where
  "logAppInstallComplete batchRequestId batchItemId appName toVersion durationMs =
     (let durSec = (durationMs + 500) div 1000
      in log batchRequestId batchItemId A_success Ph_installation
           (js_str appName @ '' updated to '' @ js_str toVersion @ '' ('' @ show_int durSec @ ''s)'')
           \<lparr>lo_details = None, lo_applicationName = appName, lo_progressPercent = Some 100\<rparr>)"

definition logAppInstallFailed ::
  "sys_id \<Rightarrow> sys_id option \<Rightarrow> string option \<Rightarrow> string \<Rightarrow>
   activity_logger \<times> store \<Rightarrow> activity_logger \<times> store" where
  "logAppInstallFailed batchRequestId batchItemId appName errorMessage =
     log batchRequestId batchItemId A_error Ph_installation
       (''Failed to install '' @ js_str appName @ '': '' @ errorMessage)
       \<lparr>lo_details = Some (Details_text errorMessage), lo_applicationName = appName,
        lo_progressPercent = None\<rparr>"

definition formatDuration :: "int \<Rightarrow> string" where
  "formatDuration seconds =
     (if seconds < 60 then show_int seconds @ ''s''
      else let min = seconds div 60; sec = seconds mod 60
           in if min < 60 then show_int min @ ''m '' @ show_int sec @ ''s''
              else show_int (min div 60) @ ''h '' @ show_int (min mod 60) @ ''m'')"

definition logBatchComplete ::
  "sys_id \<Rightarrow> batch_summary \<Rightarrow> activity_logger \<times> store \<Rightarrow> activity_logger \<times> store" where
  "logBatchComplete batchRequestId summary =
     (let msg = ''Batch installation complete. '' @
                show_nat (sum_completed summary) @ '' succeeded, '' @
                show_nat (sum_failed summary) @ '' failed, '' @
                show_nat (sum_skipped summary) @ '' skipped. '' @
                ''Total time: '' @ formatDuration (sum_durationSeconds summary);
          actType = (if sum_failed summary > 0 then A_warning else A_complete)
      in log batchRequestId None actType Ph_cleanup msg
           \<lparr>lo_details = Some (Details_summary summary), lo_applicationName = None,
            lo_progressPercent = Some 100\<rparr>)"

section \<open>BatchUpdateManager\<close>

text \<open>
  \<open>String.prototype.trim\<close> removes the white space and the line terminators at both ends
  of a string. Beyond ASCII these are the engine's (no-break space, byte order mark, the
  Unicode space separators, line and paragraph separator), so \<open>trim\<close> is the platform's:
  the field \<open>pf_trim\<close>. In ASCII they are space, tab, line feed, vertical tab, form feed
  and carriage return: \<open>ascii_trim\<close> is what \<open>trim\<close> does to a string of ASCII characters,
  and is the \<open>trim\<close> of the installations evaluated below, whose identifiers are ASCII.
\<close>

definition is_space :: "char \<Rightarrow> bool" where
  "is_space c = (c \<in> set [CHR '' '', CHR 0x09, CHR 0x0A, CHR 0x0B, CHR 0x0C, CHR 0x0D])"

definition ascii_trim :: "string \<Rightarrow> string" where
  "ascii_trim s = rev (dropWhile is_space (rev (dropWhile is_space s)))"

text \<open>The arrow of the manifest notes, in UTF-8.\<close>

definition arrow :: string where
  "arrow = [CHR 0xE2, CHR 0x86, CHR 0x92]"

text \<open>A manager instance owns one logger instance for all its calls.\<close>

record manager =
  mgr_logger :: activity_logger

definition new_manager :: manager where
  "new_manager = \<lparr>mgr_logger = new_logger\<rparr>"

record create_options =
  co_scheduledStart :: "string option"
  co_notes :: "string option"

record create_result =
  cr_success :: bool
  cr_message :: string
  cr_batchRequestId :: "sys_id option"
  cr_totalApps :: "nat option"

text \<open>
  \<open>_createBatchItems\<close>: a blank identifier and one that is no row of \<open>sys_app_version\<close>
  are passed over (\<open>continue\<close>); the install order advances only for a created item. The
  function has one return, \<open>{ success: true }\<close>.
\<close>

fun createBatchItems_loop ::
  "platform \<Rightarrow> sys_id \<Rightarrow> string list \<Rightarrow> int \<Rightarrow> batch_item list \<Rightarrow> batch_item list" where
  "createBatchItems_loop pf batchRequestId [] order' items = items"
| "createBatchItems_loop pf batchRequestId (s # rest) order' items =
     (let sysId = pf_trim pf s
      in if sysId = [] then createBatchItems_loop pf batchRequestId rest order' items
         else (case gr_get (pf_app_versions pf) sysId of
                 None \<Rightarrow> createBatchItems_loop pf batchRequestId rest order' items
               | Some verGr \<Rightarrow>
                   (let appId = av_source_app_id verGr;
                        appGr = gr_get (pf_store_apps pf) appId;
                        appName = (case appGr of None \<Rightarrow> [] | Some a \<Rightarrow> sa_display_value a);
                        appVer = (case appGr of None \<Rightarrow> [] | Some a \<Rightarrow> sa_version a);
                        itemGr = \<lparr>bi_sys_id = pf_item_id pf (length items),
                                  bi_batch_request = batchRequestId,
                                  bi_application = appId,
                                  bi_application_name = appName,
                                  bi_app_version = sysId,
                                  bi_from_version = appVer,
                                  bi_to_version = av_version verGr,
                                  bi_update_level =
                                    getUpdateLevel (getValue appVer) (getValue (av_version verGr)),
                                  bi_state = I_queued,
                                  bi_install_order = order',
                                  bi_progress_percent = 0,
                                  bi_status_message = [],
                                  bi_error_message = [],
                                  bi_start_time = None,
                                  bi_end_time = None,
                                  bi_duration_seconds = 0\<rparr>
                    in createBatchItems_loop pf batchRequestId rest (order' + 100)
                         (items @ [itemGr]))))"

definition createBatchItems :: "platform \<Rightarrow> sys_id \<Rightarrow> string list \<Rightarrow> store \<Rightarrow> bool \<times> store" where
  "createBatchItems pf batchRequestId appVersionSysIds st =
     (True, st\<lparr>batch_items :=
              createBatchItems_loop pf batchRequestId appVersionSysIds 100 (batch_items st)\<rparr>)"

text \<open>The items of one batch in install order (\<open>orderBy('install_order')\<close>).\<close>

definition items_in_order :: "store \<Rightarrow> sys_id \<Rightarrow> batch_item list" where
  "items_in_order st batchRequestId =
     sort_key bi_install_order
       (filter (\<lambda>it. bi_batch_request it = batchRequestId) (batch_items st))"

definition buildManifest :: "store \<Rightarrow> sys_id \<Rightarrow> manifest" where
  "buildManifest st batchRequestId =
     map (\<lambda>itemGr.
            \<lparr>pkg_id = bi_application itemGr,
             pkg_requested_version = bi_to_version itemGr,
             pkg_notes = js_str (getValue (bi_application_name itemGr)) @ '' '' @
                         js_str (getValue (bi_from_version itemGr)) @ '' '' @ arrow @ '' '' @
                         js_str (getValue (bi_to_version itemGr))\<rparr>)
         (items_in_order st batchRequestId)"

text \<open>\<open>gr.get(id)\<close>, field updates, \<open>gr.update()\<close> on a batch request.\<close>

definition update_batch :: "sys_id \<Rightarrow> (batch_request \<Rightarrow> batch_request) \<Rightarrow> store \<Rightarrow> store" where
  "update_batch batchId f st =
     (case batch_requests st batchId of
        None \<Rightarrow> st
      | Some gr \<Rightarrow> st\<lparr>batch_requests := (batch_requests st)(batchId \<mapsto> f gr)\<rparr>)"

definition createBatchRequest ::
  "platform \<Rightarrow> string \<Rightarrow> create_options \<Rightarrow> manager \<times> store \<Rightarrow>
   create_result \<times> manager \<times> store" where
  "createBatchRequest pf appVersionSysIds options = (\<lambda>(mgr, st).
     (let sysIds = split_on (CHR '','') appVersionSysIds
      in if length sysIds = 0 then
           (\<lparr>cr_success = False, cr_message = ''No applications selected'',
             cr_batchRequestId = None, cr_totalApps = None\<rparr>, mgr, st)
         else
           (let batchGr =
                  \<lparr>br_requested_by = pf_user_id pf,
                   br_total_apps = int (length sysIds),
                   br_state = (if truthy (co_scheduledStart options) then B_scheduled else B_draft),
                   br_scheduled_start =
                     (if truthy (co_scheduledStart options) then the (co_scheduledStart options) else []),
                   br_install_notes =
                     (if truthy (co_notes options) then the (co_notes options) else []),
                   br_completed_apps = 0,
                   br_failed_apps = 0,
                   br_skipped_apps = 0,
                   br_overall_progress = 0,
                   br_actual_start = None,
                   br_actual_end = None,
                   br_duration_seconds = 0,
                   br_batch_manifest = None,
                   br_error_summary = [],
                   br_progress_worker = []\<rparr>
            in case pf_batch_insert pf of
                 None \<Rightarrow>
                   (\<lparr>cr_success = False, cr_message = ''Failed to create batch request record'',
                     cr_batchRequestId = None, cr_totalApps = None\<rparr>, mgr, st)
               | Some batchId \<Rightarrow>
                   (let st1 = st\<lparr>batch_requests := (batch_requests st)(batchId \<mapsto> batchGr)\<rparr>;
                        (lg1, st2) =
                          log batchId None A_start Ph_preparation
                            (''Batch request created with '' @ show_nat (length sysIds) @
                             '' application(s)'') no_options (mgr_logger mgr, st1);
                        (items_success, st3) = createBatchItems pf batchId sysIds st2
                    in if \<not> items_success then
                         (\<lparr>cr_success = False, cr_message = [],
                           cr_batchRequestId = Some batchId, cr_totalApps = None\<rparr>,
                          mgr\<lparr>mgr_logger := lg1\<rparr>, st3)
                       else
                         (let manifest = buildManifest st3 batchId;
                              st4 = update_batch batchId
                                      (\<lambda>gr. gr\<lparr>br_batch_manifest := Some manifest\<rparr>) st3;
                              (lg2, st5) =
                                log batchId None A_info Ph_preparation
                                  (''Batch manifest built with '' @ show_nat (length manifest) @
                                   '' package(s)'') no_options (lg1, st4)
                          in (\<lparr>cr_success = True,
                               cr_message = ''Batch request created successfully'',
                               cr_batchRequestId = Some batchId,
                               cr_totalApps = Some (length sysIds)\<rparr>,
                              mgr\<lparr>mgr_logger := lg2\<rparr>, st5))))))"

text \<open>
  \<open>_markAllItemsInstalling\<close> and \<open>_updateQueuedItemsState\<close>: every row the query selects is
  rewritten in place.
\<close>

definition markAllItemsInstalling :: "int \<Rightarrow> sys_id \<Rightarrow> store \<Rightarrow> store" where
  "markAllItemsInstalling now batchRequestId st =
     st\<lparr>batch_items :=
          map (\<lambda>gr. if bi_batch_request gr = batchRequestId \<and> bi_state gr = I_queued
                     then gr\<lparr>bi_state := I_installing, bi_start_time := Some now\<rparr>
                     else gr)
              (batch_items st)\<rparr>"

definition updateQueuedItemsState :: "sys_id \<Rightarrow> item_state \<Rightarrow> store \<Rightarrow> store" where
  "updateQueuedItemsState batchRequestId newState st =
     st\<lparr>batch_items :=
          map (\<lambda>gr. if bi_batch_request gr = batchRequestId \<and>
                        (bi_state gr = I_queued \<or> bi_state gr = I_installing)
                     then gr\<lparr>bi_state := newState\<rparr>
                     else gr)
              (batch_items st)\<rparr>"

fun join_comma :: "string list \<Rightarrow> string" where
  "join_comma [] = []"
| "join_comma [x] = x"
| "join_comma (x # y # xs) = x @ CHR '','' # join_comma (y # xs)"

definition getAppVersionSysIds :: "store \<Rightarrow> sys_id \<Rightarrow> string" where
  "getAppVersionSysIds st batchRequestId =
     join_comma (map bi_app_version (items_in_order st batchRequestId))"

text \<open>
  The install subflow is the external installer: given the \<open>apps\<close> input it either throws
  (\<open>Inl\<close> the exception's message) or returns its outputs, where a missing output reads
  as the empty string.
\<close>

record flow_outputs =
  fo_progress_id :: string
  fo_status_message :: string

type_synonym subflow = "string \<Rightarrow> string + flow_outputs"

record execute_result =
  er_success :: bool
  er_message :: string
  er_progressWorkerId :: "string option"
  er_batchRequestId :: "sys_id option"

text \<open>
  \<open>executeBatchInstall\<close>. The only state it refuses is \<open>in_progress\<close>. The monitor subflow
  it starts at the end runs in the background, after this call has returned.
\<close>

definition executeBatchInstall ::
  "int \<Rightarrow> subflow \<Rightarrow> sys_id \<Rightarrow> manager \<times> store \<Rightarrow> execute_result \<times> manager \<times> store" where
  "executeBatchInstall now run batchRequestId = (\<lambda>(mgr, st).
     (case batch_requests st batchRequestId of
        None \<Rightarrow>
          (\<lparr>er_success = False, er_message = ''Batch request not found'',
            er_progressWorkerId = None, er_batchRequestId = None\<rparr>, mgr, st)
      | Some batchGr \<Rightarrow>
          if br_state batchGr = B_in_progress then
            (\<lparr>er_success = False, er_message = ''Batch is already running'',
              er_progressWorkerId = None, er_batchRequestId = None\<rparr>, mgr, st)
          else
            (let st1 = update_batch batchRequestId
                         (\<lambda>gr. gr\<lparr>br_state := B_in_progress, br_actual_start := Some now\<rparr>) st;
                 (lg1, st2) =
                   log batchRequestId None A_start Ph_installation
                     ''Batch installation started'' no_options (mgr_logger mgr, st1);
                 st3 = markAllItemsInstalling now batchRequestId st2
             in case run (getAppVersionSysIds st3 batchRequestId) of
                  Inr outputs \<Rightarrow>
                    (let progressId = fo_progress_id outputs;
                         statusMessage = fo_status_message outputs;
                         st4 = update_batch batchRequestId
                                 (\<lambda>gr. gr\<lparr>br_progress_worker := progressId\<rparr>) st3;
                         (lg2, st5) =
                           log batchRequestId None A_info Ph_installation
                             (''CI/CD Batch Install triggered. Progress worker: '' @ progressId)
                             no_options (lg1, st4)
                     in (\<lparr>er_success = True,
                          er_message =
                            (if statusMessage \<noteq> [] then statusMessage else ''Installation started''),
                          er_progressWorkerId = Some progressId,
                          er_batchRequestId = Some batchRequestId\<rparr>,
                         mgr\<lparr>mgr_logger := lg2\<rparr>, st5))
                | Inl errorMsg \<Rightarrow>
                    (let st4 = update_batch batchRequestId
                                 (\<lambda>gr. gr\<lparr>br_state := B_failed,
                                           br_error_summary := errorMsg,
                                           br_actual_end := Some now\<rparr>) st3;
                         (lg2, st5) =
                           log batchRequestId None A_error Ph_installation
                             (''Batch installation failed: '' @ errorMsg) no_options (lg1, st4)
                     in (\<lparr>er_success = False, er_message = errorMsg,
                          er_progressWorkerId = None, er_batchRequestId = None\<rparr>,
                         mgr\<lparr>mgr_logger := lg2\<rparr>, st5)))))"

text \<open>\<open>cancelBatchInstall\<close>: the state of the batch is not read.\<close>

definition cancelBatchInstall ::
  "platform \<Rightarrow> int \<Rightarrow> sys_id \<Rightarrow> manager \<times> store \<Rightarrow> (bool \<times> string) \<times> manager \<times> store" where
  "cancelBatchInstall pf now batchRequestId = (\<lambda>(mgr, st).
     (case batch_requests st batchRequestId of
        None \<Rightarrow> ((False, ''Batch request not found''), mgr, st)
      | Some batchGr \<Rightarrow>
          (let st1 = update_batch batchRequestId
                       (\<lambda>gr. gr\<lparr>br_state := B_cancelled, br_actual_end := Some now\<rparr>) st;
               st2 = updateQueuedItemsState batchRequestId I_skipped st1;
               (lg1, st3) =
                 log batchRequestId None A_warning Ph_installation
                   (''Batch installation cancelled by '' @ pf_user_display_name pf)
                   no_options (mgr_logger mgr, st2)
           in ((True, ''Batch installation cancelled''), mgr\<lparr>mgr_logger := lg1\<rparr>, st3))))"

section \<open>The REST resource \<open>POST /batch-install\<close>\<close>

record batch_install_body =
  body_appVersionSysIds :: "string option"
  body_execute :: "bool option"
  body_scheduledStart :: "string option"
  body_notes :: "string option"

datatype response_body =
  Body_error string
| Body_result create_result "execute_result option"

text \<open>
  \<open>postBatchInstall\<close>: a missing or empty \<open>appVersionSysIds\<close> is answered 400 before a
  manager exists; each request builds a manager of its own.
\<close>

definition postBatchInstall ::
  "platform \<Rightarrow> int \<Rightarrow> subflow \<Rightarrow> batch_install_body \<Rightarrow> store \<Rightarrow> (nat \<times> response_body) \<times> store" where
  "postBatchInstall pf now run body st =
     (let appVersionSysIds = js_or (body_appVersionSysIds body) [];
          execute = (body_execute body \<noteq> Some False);
          options = \<lparr>co_scheduledStart =
                       (if truthy (body_scheduledStart body) then body_scheduledStart body else None),
                     co_notes = Some (js_or (body_notes body) [])\<rparr>
      in if appVersionSysIds = [] then ((400, Body_error ''appVersionSysIds is required''), st)
         else
           (let (result, mgr1, st1) = createBatchRequest pf appVersionSysIds options (new_manager, st)
            in if \<not> cr_success result then ((500, Body_result result None), st1)
               else if execute \<and> \<not> truthy (co_scheduledStart options) then
                 (case cr_batchRequestId result of
                    None \<Rightarrow> ((201, Body_result result None), st1)
                  | Some batchId \<Rightarrow>
                      (let (execResult, mgr2, st2) = executeBatchInstall now run batchId (mgr1, st1)
                       in ((201, Body_result result (Some execResult)), st2)))
               else ((201, Body_result result None), st1)))"

section \<open>The progress monitor (\<open>MonitorProgressScript\<close>)\<close>

text \<open>
  One read of the \<open>sys_progress_worker\<close> record. The percentage is the field after
  \<open>parseInt(...) || 0\<close>: \<open>None\<close> stands for a value that does not parse.
\<close>

record progress_worker =
  pw_state :: string
  pw_message :: string
  pw_percent_complete :: "int option"
  pw_error_message :: string
  pw_output_summary :: string

text \<open>
  What one pass of the \<open>while (true)\<close> loop observes: the clock, which also stamps the
  records written in that pass, and the progress worker, \<open>None\<close> when
  \<open>pw.get(progressWorkerId)\<close> finds nothing.
\<close>

record observation =
  ob_time :: int
  ob_worker :: "progress_worker option"

text \<open>The script's local variables and its flow outputs.\<close>

record monitor =
  mon_logger :: activity_logger
  lastMessage :: string
  lastPercent :: int
  completedApps :: nat
  failedApps :: nat
  pollCount :: nat
  out_final_state :: "batch_state option"
  out_summary :: "string option"

definition MAX_POLL_TIME_MS :: int where
  "MAX_POLL_TIME_MS = 7200000"

text \<open>
  The two floating-point expressions of \<open>_parseAndUpdateItems\<close> are parameters:
  \<open>est_itemIndex p n\<close> stands for \<open>Math.floor((p / 100) * n)\<close> and \<open>est_itemPercent p i n\<close>
  for \<open>Math.round(((p - (i / n * 100)) / (100 / n)) * 100)\<close>.
\<close>

record estimator =
  est_itemIndex :: "int \<Rightarrow> nat \<Rightarrow> int"
  est_itemPercent :: "int \<Rightarrow> int \<Rightarrow> nat \<Rightarrow> int"

text \<open>
  \<open>Math.round(dur.getNumericValue() / 1000)\<close> for the time from a stamped start to now; a
  start never stamped counts as now.
\<close>

definition duration_seconds :: "int option \<Rightarrow> int \<Rightarrow> int" where
  "duration_seconds start now =
     (case start of None \<Rightarrow> 0 | Some s \<Rightarrow> (now - s + 500) div 1000)"

text \<open>\<open>message.toLowerCase().indexOf(w) !== -1\<close>, on ASCII letters.\<close>

definition to_lower :: "char \<Rightarrow> char" where
  "to_lower c =
     (case map_of (zip ''ABCDEFGHIJKLMNOPQRSTUVWXYZ'' ''abcdefghijklmnopqrstuvwxyz'') c of
        None \<Rightarrow> c
      | Some l \<Rightarrow> l)"

fun starts_with :: "string \<Rightarrow> string \<Rightarrow> bool" where
  "starts_with [] s = True"
| "starts_with (w # ws) [] = False"
| "starts_with (w # ws) (c # cs) = (w = c \<and> starts_with ws cs)"

fun contains :: "string \<Rightarrow> string \<Rightarrow> bool" where
  "contains w [] = (w = [])"
| "contains w (c # cs) = (starts_with w (c # cs) \<or> contains w cs)"

definition classify_message :: "string \<Rightarrow> activity_type" where
  "classify_message message =
     (let m = map to_lower message
      in if contains ''error'' m \<or> contains ''fail'' m then A_error
         else if contains ''complete'' m \<or> contains ''success'' m then A_success
         else if contains ''install'' m then A_info
         else A_progress)"

definition updateBatchProgress :: "sys_id \<Rightarrow> int \<Rightarrow> store \<Rightarrow> store" where
  "updateBatchProgress batchId percent st =
     update_batch batchId (\<lambda>gr. gr\<lparr>br_overall_progress := percent\<rparr>) st"

definition is_installing_of :: "sys_id \<Rightarrow> batch_item \<Rightarrow> bool" where
  "is_installing_of batchId it = (bi_batch_request it = batchId \<and> bi_state it = I_installing)"

text \<open>
  The second loop of \<open>_parseAndUpdateItems\<close>, over the installing items in install order,
  each with its position in the table; \<open>idx\<close> counts the items walked.
\<close>

fun parseAndUpdateItems_loop ::
  "estimator \<Rightarrow> int \<Rightarrow> string \<Rightarrow> int \<Rightarrow> nat \<Rightarrow> int \<Rightarrow> (nat \<times> batch_item) list \<Rightarrow> nat \<Rightarrow>
   nat \<times> batch_item list \<Rightarrow> nat \<times> batch_item list" where
  "parseAndUpdateItems_loop est now message overallPercent totalItems itemIndex [] idx acc = acc"
| "parseAndUpdateItems_loop est now message overallPercent totalItems itemIndex
     ((pos, itemGr) # rest) idx (completed, rows) =
     (if int idx < itemIndex then
        parseAndUpdateItems_loop est now message overallPercent totalItems itemIndex rest (idx + 1)
          (completed + 1,
           rows[pos := itemGr\<lparr>bi_state := I_completed,
                              bi_progress_percent := 100,
                              bi_end_time := Some now,
                              bi_status_message := ''Installed successfully'',
                              bi_duration_seconds := duration_seconds (bi_start_time itemGr) now\<rparr>])
      else if int idx = itemIndex then
        parseAndUpdateItems_loop est now message overallPercent totalItems itemIndex rest (idx + 1)
          (completed,
           rows[pos := itemGr\<lparr>bi_progress_percent :=
                                max 0 (min 100 (est_itemPercent est overallPercent itemIndex totalItems)),
                              bi_status_message := message\<rparr>])
      else
        parseAndUpdateItems_loop est now message overallPercent totalItems itemIndex rest (idx + 1)
          (completed, rows))"

definition parseAndUpdateItems ::
  "estimator \<Rightarrow> int \<Rightarrow> sys_id \<Rightarrow> string \<Rightarrow> int \<Rightarrow> monitor \<times> store \<Rightarrow> monitor \<times> store" where
  "parseAndUpdateItems est now batchId message overallPercent = (\<lambda>(mon, st).
     (let rows = batch_items st;
          totalItems = length (filter (is_installing_of batchId) rows)
      in if totalItems > 0 then
           (let itemIndex = est_itemIndex est overallPercent totalItems;
                selected = sort_key (\<lambda>(pos, it). bi_install_order it)
                             (filter (\<lambda>(pos, it). is_installing_of batchId it)
                                (zip [0..<length rows] rows));
                (completed, rows') =
                  parseAndUpdateItems_loop est now message overallPercent totalItems itemIndex
                    selected 0 (completedApps mon, rows)
            in (mon\<lparr>completedApps := completed\<rparr>, st\<lparr>batch_items := rows'\<rparr>))
         else (mon, st)))"

text \<open>
  \<open>_syncFinalItemStates\<close>, one item: the item is compared with the installed version only
  when its application is a record of \<open>sys_store_app\<close>; an item already \<open>completed\<close> is
  left alone.
\<close>

definition syncFinalItemStates_item ::
  "platform \<Rightarrow> int \<Rightarrow> sys_id \<Rightarrow> batch_item \<Rightarrow> (activity_logger \<times> store) \<times> nat \<Rightarrow>
   batch_item \<times> (activity_logger \<times> store) \<times> nat" where
  "syncFinalItemStates_item pf now batchId itemGr = (\<lambda>(ls, failed).
     (case gr_get (pf_store_apps pf) (bi_application itemGr) of
        None \<Rightarrow> (itemGr, ls, failed)
      | Some appGr \<Rightarrow>
          (let currentVersion = getValue (sa_version appGr);
               targetVersion = getValue (bi_to_version itemGr)
           in if currentVersion = targetVersion then
                (if bi_state itemGr \<noteq> I_completed then
                   (itemGr\<lparr>bi_state := I_completed,
                           bi_progress_percent := 100,
                           bi_status_message := ''Installed successfully'',
                           bi_end_time :=
                             (if bi_end_time itemGr = None then Some now else bi_end_time itemGr)\<rparr>,
                    logAppInstallComplete batchId (Some (bi_sys_id itemGr))
                      (getValue (bi_application_name itemGr)) targetVersion 0 ls,
                    failed)
                 else (itemGr, ls, failed))
              else if bi_state itemGr = I_installing then
                (itemGr\<lparr>bi_state := I_failed,
                        bi_error_message :=
                          ''Version mismatch after install. Expected '' @ js_str targetVersion @
                          '', found '' @ js_str currentVersion,
                        bi_end_time := Some now\<rparr>,
                 logAppInstallFailed batchId (Some (bi_sys_id itemGr))
                   (getValue (bi_application_name itemGr))
                   (''Version not updated to '' @ js_str targetVersion) ls,
                 failed + 1)
              else (itemGr, ls, failed))))"

fun syncFinalItemStates_loop ::
  "platform \<Rightarrow> int \<Rightarrow> sys_id \<Rightarrow> batch_item list \<Rightarrow> (activity_logger \<times> store) \<times> nat \<Rightarrow>
   batch_item list \<times> (activity_logger \<times> store) \<times> nat" where
  "syncFinalItemStates_loop pf now batchId [] acc = ([], acc)"
| "syncFinalItemStates_loop pf now batchId (itemGr # rest) acc =
     (if bi_batch_request itemGr = batchId then
        (let (itemGr', acc') = syncFinalItemStates_item pf now batchId itemGr acc;
             (rest', acc'') = syncFinalItemStates_loop pf now batchId rest acc'
         in (itemGr' # rest', acc''))
      else
        (let (rest', acc') = syncFinalItemStates_loop pf now batchId rest acc
         in (itemGr # rest', acc')))"

definition syncFinalItemStates ::
  "platform \<Rightarrow> int \<Rightarrow> sys_id \<Rightarrow> monitor \<times> store \<Rightarrow> monitor \<times> store" where
  "syncFinalItemStates pf now batchId = (\<lambda>(mon, st).
     (let (rows', (lg, st'), failed) =
            syncFinalItemStates_loop pf now batchId (batch_items st)
              ((mon_logger mon, st), failedApps mon)
      in (mon\<lparr>mon_logger := lg, failedApps := failed\<rparr>, st'\<lparr>batch_items := rows'\<rparr>)))"

definition count_state :: "store \<Rightarrow> sys_id \<Rightarrow> item_state \<Rightarrow> nat" where
  "count_state st batchId s =
     length (filter (\<lambda>it. bi_batch_request it = batchId \<and> bi_state it = s) (batch_items st))"

text \<open>
  \<open>_finalizeBatch(state, message)\<close>: the message goes to the flow output \<open>summary\<close>; the
  error summary of the batch request is written only when an item has failed.
\<close>

definition finalizeBatch ::
  "sys_id \<Rightarrow> int \<Rightarrow> int \<Rightarrow> batch_state \<Rightarrow> string \<Rightarrow> monitor \<times> store \<Rightarrow> monitor \<times> store" where
  "finalizeBatch batchRequestId startTime now state' message = (\<lambda>(mon, st).
     (let countCompleted = count_state st batchRequestId I_completed;
          countFailed = count_state st batchRequestId I_failed;
          countSkipped = count_state st batchRequestId I_skipped;
          finalState = (if countFailed > 0 \<and> countCompleted > 0 then B_partial else state');
          st1 = update_batch batchRequestId
                  (\<lambda>gr. gr\<lparr>br_state := finalState,
                            br_completed_apps := int countCompleted,
                            br_failed_apps := int countFailed,
                            br_skipped_apps := int countSkipped,
                            br_overall_progress := 100,
                            br_actual_end := Some now,
                            br_duration_seconds := duration_seconds (br_actual_start gr) now,
                            br_error_summary :=
                              (if countFailed > 0
                               then show_nat countFailed @ '' app(s) failed to install''
                               else br_error_summary gr)\<rparr>) st;
          (lg, st2) =
            logBatchComplete batchRequestId
              \<lparr>sum_completed = countCompleted,
               sum_failed = countFailed,
               sum_skipped = countSkipped,
               sum_total = countCompleted + countFailed + countSkipped,
               sum_durationSeconds = (now - startTime + 500) div 1000\<rparr>
              (mon_logger mon, st1)
      in (mon\<lparr>mon_logger := lg, out_final_state := Some finalState, out_summary := Some message\<rparr>,
          st2)))"

datatype 'a step = Continue 'a | Break 'a

text \<open>
  One pass of the \<open>while (true)\<close> loop, in the three blocks the script runs after a
  successful read of the worker: the message change, the percent milestone, the terminal
  check. \<open>Break\<close> is the loop's \<open>break\<close>; \<open>Continue\<close> is the end of the body or its
  \<open>continue\<close>, after the sleep.
\<close>

definition percent_of :: "progress_worker \<Rightarrow> int" where
  "percent_of pw = (case pw_percent_complete pw of None \<Rightarrow> 0 | Some p \<Rightarrow> p)"

definition message_block ::
  "estimator \<Rightarrow> sys_id \<Rightarrow> int \<Rightarrow> progress_worker \<Rightarrow> monitor \<times> store \<Rightarrow> monitor \<times> store" where
  "message_block est batchRequestId now pw = (\<lambda>(mon, st).
     (let message = pw_message pw;
          percent = percent_of pw;
          outputSummary = pw_output_summary pw
      in if message \<noteq> lastMessage mon then
           (let (lg, st') =
                  log batchRequestId None (classify_message message) Ph_installation message
                    \<lparr>lo_details = Some (Details_text outputSummary),
                     lo_applicationName = None,
                     lo_progressPercent = Some percent\<rparr>
                    (mon_logger mon, st)
            in parseAndUpdateItems est now batchRequestId message percent
                 (mon\<lparr>mon_logger := lg, lastMessage := message\<rparr>, st'))
         else (mon, st)))"

definition milestone_block :: "sys_id \<Rightarrow> progress_worker \<Rightarrow> monitor \<times> store \<Rightarrow> monitor \<times> store" where
  "milestone_block batchRequestId pw = (\<lambda>(mon, st).
     (let percent = percent_of pw
      in if percent \<noteq> lastPercent mon \<and> percent mod 10 = 0 \<and> percent > 0 then
           (mon\<lparr>lastPercent := percent\<rparr>, updateBatchProgress batchRequestId percent st)
         else (mon, st)))"

definition is_terminal :: "string \<Rightarrow> bool" where
  "is_terminal state' = (state' = ''complete'' \<or> state' = ''cancelled'' \<or> state' = ''error'')"

definition terminal_block ::
  "platform \<Rightarrow> sys_id \<Rightarrow> int \<Rightarrow> int \<Rightarrow> progress_worker \<Rightarrow> monitor \<times> store \<Rightarrow>
   (monitor \<times> store) step" where
  "terminal_block pf batchRequestId startTime now pw = (\<lambda>(mon, st).
     (let state' = pw_state pw;
          message = pw_message pw;
          errorMsg = pw_error_message pw;
          outputSummary = pw_output_summary pw
      in if is_terminal state' then
           (let finalState = (if state' = ''complete'' then B_completed else B_failed);
                (lg, st1) =
                  (if errorMsg \<noteq> [] then
                     log batchRequestId None A_error Ph_post_install
                       (''Installation error: '' @ errorMsg) no_options (mon_logger mon, st)
                   else (mon_logger mon, st))
            in Break (finalizeBatch batchRequestId startTime now finalState
                        (if outputSummary \<noteq> [] then outputSummary else message)
                        (syncFinalItemStates pf now batchRequestId (mon\<lparr>mon_logger := lg\<rparr>, st1))))
         else Continue (mon, st)))"

definition timeout_block :: "sys_id \<Rightarrow> int \<Rightarrow> int \<Rightarrow> monitor \<times> store \<Rightarrow> monitor \<times> store" where
  "timeout_block batchRequestId startTime now = (\<lambda>(mon, st).
     (let (lg, st1) =
            log batchRequestId None A_warning Ph_installation
              ''Progress monitor timed out after 2 hours'' no_options (mon_logger mon, st)
      in finalizeBatch batchRequestId startTime now B_failed ''Monitor timeout''
           (mon\<lparr>mon_logger := lg\<rparr>, st1)))"

definition not_found_block :: "sys_id \<Rightarrow> int \<Rightarrow> int \<Rightarrow> monitor \<times> store \<Rightarrow> monitor \<times> store" where
  "not_found_block batchRequestId startTime now = (\<lambda>(mon, st).
     (let (lg, st1) =
            log batchRequestId None A_error Ph_installation
              ''Progress worker not found after extended polling'' no_options (mon_logger mon, st)
      in finalizeBatch batchRequestId startTime now B_failed ''Progress worker not found''
           (mon\<lparr>mon_logger := lg\<rparr>, st1)))"

definition poll ::
  "estimator \<Rightarrow> platform \<Rightarrow> sys_id \<Rightarrow> int \<Rightarrow> observation \<Rightarrow> monitor \<times> store \<Rightarrow>
   (monitor \<times> store) step" where
  "poll est pf batchRequestId startTime ob = (\<lambda>(mon0, st).
     (let mon = mon0\<lparr>pollCount := pollCount mon0 + 1\<rparr>;
          now = ob_time ob;
          elapsed = now - startTime
      in if elapsed > MAX_POLL_TIME_MS then
           Break (timeout_block batchRequestId startTime now (mon, st))
         else
           (case ob_worker ob of
              None \<Rightarrow>
                if pollCount mon > 20 then
                  Break (not_found_block batchRequestId startTime now (mon, st))
                else Continue (mon, st)
            | Some pw \<Rightarrow>
                terminal_block pf batchRequestId startTime now pw
                  (milestone_block batchRequestId pw
                     (message_block est batchRequestId now pw (mon, st))))))"

text \<open>
  The loop over the passes it is given. It returns \<open>Some\<close> when a pass breaks and \<open>None\<close>
  when the passes end with the loop still polling.
\<close>

fun poll_loop ::
  "estimator \<Rightarrow> platform \<Rightarrow> sys_id \<Rightarrow> int \<Rightarrow> observation list \<Rightarrow> monitor \<times> store \<Rightarrow>
   (monitor \<times> store) option" where
  "poll_loop est pf batchRequestId startTime [] ms = None"
| "poll_loop est pf batchRequestId startTime (ob # obs) ms =
     (case poll est pf batchRequestId startTime ob ms of
        Break ms' \<Rightarrow> Some ms'
      | Continue ms' \<Rightarrow> poll_loop est pf batchRequestId startTime obs ms')"

definition new_monitor :: monitor where
  "new_monitor =
     \<lparr>mon_logger = new_logger, lastMessage = [], lastPercent = - 1, completedApps = 0,
      failedApps = 0, pollCount = 0, out_final_state = None, out_summary = None\<rparr>"

text \<open>
  \<open>execute(inputs, outputs)\<close>: a logger of the script's own, the start entry, then the
  loop.
\<close>

definition execute ::
  "estimator \<Rightarrow> platform \<Rightarrow> sys_id \<Rightarrow> string \<Rightarrow> int \<Rightarrow> observation list \<Rightarrow> store \<Rightarrow>
   (monitor \<times> store) option" where
  "execute est pf batchRequestId progressWorkerId startTime obs st =
     (let (lg, st1) =
            log batchRequestId None A_info Ph_installation
              (''Progress monitor started. Tracking worker: '' @ progressWorkerId) no_options
              (mon_logger new_monitor, st)
      in poll_loop est pf batchRequestId startTime obs (new_monitor\<lparr>mon_logger := lg\<rparr>, st1))"

section \<open>UpdateAnalyzer: the dependency order\<close>

text \<open>
  \<open>_topologicalSort\<close>. \<open>visited\<close> and \<open>visiting\<close> are plain objects made by \<open>{}\<close>, read for
  truthiness only. Reading \<open>obj[id]\<close> finds the object's own property of that name, and
  where it has none, the property that an empty object inherits from \<open>Object.prototype\<close>
  (\<open>constructor\<close>, \<open>toString\<close>, ...), whose value is a function or an object and so truthy.
  An object is modelled by its own properties; the names of the inherited properties are
  the engine's, so they are a parameter \<open>proto\<close> of the sort. \<open>es5_object_prototype\<close> lists
  the names that every ECMAScript 5 engine defines; an engine may define more
  (\<open>__proto__\<close>, \<open>__defineGetter__\<close>, ...).

  \<open>visit\<close> assigns to \<open>visiting[id]\<close> and \<open>visited[id]\<close> only after it has read both as
  falsy, so it creates own properties; an accessor such as \<open>__proto__\<close>, where an
  assignment would not create one, is inherited and is never assigned to. \<open>depMap[id]\<close> is
  read at that point only, for an identifier that names no inherited property: it is the
  entry of the map, or \<open>undefined\<close>.

  The closure \<open>visit\<close> changes the four variables of the enclosing call, which are the state
  threaded here; the dependency loop inside it is \<open>visit_deps\<close>. \<open>visit\<close> calls itself
  through the loop, so the model counts the depth of nested calls it may still open: with
  none left the result is \<open>None\<close>.
\<close>

type_synonym js_object = "string \<rightharpoonup> bool"

definition truthy_prop :: "string list \<Rightarrow> js_object \<Rightarrow> string \<Rightarrow> bool" where
  "truthy_prop proto obj k = (case obj k of None \<Rightarrow> k \<in> set proto | Some v \<Rightarrow> v)"

definition es5_object_prototype :: "string list" where
  "es5_object_prototype =
     [''constructor'', ''toString'', ''toLocaleString'', ''valueOf'', ''hasOwnProperty'',
      ''isPrototypeOf'', ''propertyIsEnumerable'']"

record sort_state =
  ss_visited :: js_object
  ss_visiting :: js_object
  ss_order :: "sys_id list"
  ss_conflicts :: "string list"

type_synonym dep_map = "sys_id \<rightharpoonup> sys_id list"

text \<open>\<open>depMap[id] || []\<close>.\<close>

definition deps_of :: "dep_map \<Rightarrow> sys_id \<Rightarrow> sys_id list" where
  "deps_of depMap id' = (case depMap id' of None \<Rightarrow> [] | Some deps \<Rightarrow> deps)"

fun visit :: "string list \<Rightarrow> sys_id list \<Rightarrow> dep_map \<Rightarrow> nat \<Rightarrow> sys_id \<Rightarrow> sort_state \<Rightarrow> sort_state option"
  and visit_deps :: "string list \<Rightarrow> sys_id list \<Rightarrow> dep_map \<Rightarrow> nat \<Rightarrow> sys_id list \<Rightarrow> sort_state \<Rightarrow> sort_state option"
  where
  "visit proto appIds depMap 0 id' st = None"
| "visit proto appIds depMap (Suc n) id' st =
     (if truthy_prop proto (ss_visiting st) id' then
        Some (st\<lparr>ss_conflicts :=
                   ss_conflicts st @ [''Circular dependency detected involving '' @ id']\<rparr>)
      else if truthy_prop proto (ss_visited st) id' then Some st
      else
        (case visit_deps proto appIds depMap n (deps_of depMap id')
                (st\<lparr>ss_visiting := (ss_visiting st)(id' \<mapsto> True)\<rparr>) of
           None \<Rightarrow> None
         | Some st' \<Rightarrow>
             Some (st'\<lparr>ss_visiting := (ss_visiting st')(id' \<mapsto> False),
                       ss_visited := (ss_visited st')(id' \<mapsto> True),
                       ss_order := ss_order st' @ [id']\<rparr>)))"
| "visit_deps proto appIds depMap n [] st = Some st"
| "visit_deps proto appIds depMap n (d # deps) st =
     (if d \<in> set appIds then
        (case visit proto appIds depMap n d st of
           None \<Rightarrow> None
         | Some st' \<Rightarrow> visit_deps proto appIds depMap n deps st')
      else visit_deps proto appIds depMap n deps st)"

text \<open>The outer loop over \<open>appIds\<close>, and the function.\<close>

fun visit_all :: "string list \<Rightarrow> sys_id list \<Rightarrow> dep_map \<Rightarrow> nat \<Rightarrow> sys_id list \<Rightarrow> sort_state \<Rightarrow> sort_state option" where
  "visit_all proto appIds depMap n [] st = Some st"
| "visit_all proto appIds depMap n (a # rest) st =
     (case visit proto appIds depMap n a st of
        None \<Rightarrow> None
      | Some st' \<Rightarrow> visit_all proto appIds depMap n rest st')"

definition initial_sort_state :: sort_state where
  "initial_sort_state =
     \<lparr>ss_visited = Map.empty, ss_visiting = Map.empty, ss_order = [], ss_conflicts = []\<rparr>"

definition topologicalSort ::
  "string list \<Rightarrow> nat \<Rightarrow> sys_id list \<Rightarrow> dep_map \<Rightarrow> (sys_id list \<times> string list) option" where
  "topologicalSort proto n appIds depMap =
     map_option (\<lambda>st. (ss_order st, ss_conflicts st))
       (visit_all proto appIds depMap n appIds initial_sort_state)"

text \<open>
  \<open>analyzeDependencies\<close>, over the rows (source, target) of \<open>sys_app_dependency\<close>: the
  dependency map has an entry for each candidate, which is what the sort and the warning
  loop read back for it; a warning is written for each dependency that is not a
  candidate.
\<close>

definition getAppDependencies :: "(sys_id \<times> sys_id) list \<Rightarrow> sys_id \<Rightarrow> sys_id list" where
  "getAppDependencies rows appSysId = map snd (filter (\<lambda>r. fst r = appSysId) rows)"


fun build_depMap :: "(sys_id \<times> sys_id) list \<Rightarrow> sys_id list \<Rightarrow> dep_map \<Rightarrow> dep_map" where
  "build_depMap rows [] depMap = depMap"
| "build_depMap rows (appId # rest) depMap =
     build_depMap rows rest (depMap(appId \<mapsto> getAppDependencies rows appId))"




section \<open>Predicates of the claims\<close>

text \<open>The log entries a step has appended, and what it means that they continue a counter.\<close>

definition written_since :: "store \<Rightarrow> store \<Rightarrow> log_entry list" where
  "written_since st st' = drop (length (activity_log st)) (activity_log st')"

definition in_sequence :: "activity_logger \<times> store \<Rightarrow> activity_logger \<times> store \<Rightarrow> bool" where
  "in_sequence a b =
     (activity_log (snd b) = activity_log (snd a) @ written_since (snd a) (snd b)
      \<and> sequenceCounter (fst a) \<le> sequenceCounter (fst b)
      \<and> map le_sequence (written_since (snd a) (snd b)) =
          [Suc (sequenceCounter (fst a)) ..< Suc (sequenceCounter (fst b))])"

section \<open>A small installation to evaluate the model on, and further predicates\<close>

text \<open>
  One store application \<open>a1\<close> at version 1.0.0 with one available version \<open>v1\<close> = 2.0.0;
  the installer answers with the progress worker \<open>pw\<close>; the item estimate is computed in
  exact integer arithmetic.
\<close>

definition example_platform :: platform where
  "example_platform =
     \<lparr>pf_app_versions = [''v1'' \<mapsto> \<lparr>av_source_app_id = ''a1'', av_version = ''2.0.0''\<rparr>],
      pf_store_apps = [''a1'' \<mapsto> \<lparr>sa_display_value = ''App One'', sa_version = ''1.0.0''\<rparr>],
      pf_user_id = ''admin'',
      pf_user_display_name = ''System Administrator'',
      pf_batch_insert = Some ''b1'',
      pf_item_id = (\<lambda>n. ''i'' @ show_nat n),
      pf_trim = ascii_trim\<rparr>"

definition empty_store :: store where
  "empty_store = \<lparr>batch_requests = Map.empty, batch_items = [], activity_log = []\<rparr>"

definition example_estimator :: estimator where
  "example_estimator =
     \<lparr>est_itemIndex = (\<lambda>p n. (p * int n) div 100),
      est_itemPercent = (\<lambda>p i n. p * int n - i * 100)\<rparr>"

definition example_subflow :: subflow where
  "example_subflow = (\<lambda>apps. Inr \<lparr>fo_progress_id = ''pw'', fo_status_message = []\<rparr>)"

definition example_options :: create_options where
  "example_options = \<lparr>co_scheduledStart = None, co_notes = None\<rparr>"

definition example_body :: "string \<Rightarrow> batch_install_body" where
  "example_body ids =
     \<lparr>body_appVersionSysIds = Some ids, body_execute = None, body_scheduledStart = None,
      body_notes = None\<rparr>"

definition running :: "string \<Rightarrow> int \<Rightarrow> progress_worker" where
  "running msg p =
     \<lparr>pw_state = ''running'', pw_message = msg, pw_percent_complete = Some p,
      pw_error_message = [], pw_output_summary = []\<rparr>"

definition complete :: "string \<Rightarrow> progress_worker" where
  "complete msg =
     \<lparr>pw_state = ''complete'', pw_message = msg, pw_percent_complete = Some 100,
      pw_error_message = [], pw_output_summary = []\<rparr>"

text \<open>The store after \<open>POST /batch-install\<close> for \<open>v1\<close> at time 5: batch \<open>b1\<close> is running.\<close>

definition started_store :: store where
  "started_store = snd (postBatchInstall example_platform 5 example_subflow (example_body ''v1'') empty_store)"

text \<open>
  A submitted identifier resolves when, trimmed, it is not blank and is a record of
  \<open>sys_app_version\<close>; the batch items a step has added.
\<close>

definition resolves :: "platform \<Rightarrow> string \<Rightarrow> bool" where
  "resolves pf s = (pf_trim pf s \<noteq> [] \<and> gr_get (pf_app_versions pf) (pf_trim pf s) \<noteq> None)"

definition items_added :: "store \<Rightarrow> store \<Rightarrow> batch_item list" where
  "items_added st st' = drop (length (batch_items st)) (batch_items st')"


definition state_of :: "store \<Rightarrow> sys_id \<Rightarrow> batch_state option" where
  "state_of st b = map_option br_state (batch_requests st b)"

text \<open>
  The percent milestones of a run. The milestone block is the only place that assigns
  \<open>lastPercent\<close>, and it assigns it exactly when it calls \<open>_updateBatchProgress\<close>, with the
  value it persists; so a pass has persisted a milestone when it has changed
  \<open>lastPercent\<close>, and the milestone is the new value.
\<close>

definition fired :: "monitor \<times> store \<Rightarrow> monitor \<times> store \<Rightarrow> int list" where
  "fired ms ms' = (if lastPercent (fst ms') \<noteq> lastPercent (fst ms) then [lastPercent (fst ms')] else [])"

text \<open>
  The milestone that is due in a pass: the percentage read, when the pass reads the
  worker within the maximum run time and the percentage passes the test
  \<open>percent !== lastPercent && percent % 10 === 0 && percent > 0\<close>.
\<close>

definition due :: "int \<Rightarrow> observation \<Rightarrow> monitor \<Rightarrow> int option" where
  "due startTime ob mon =
     (if ob_time ob - startTime > MAX_POLL_TIME_MS then None
      else (case ob_worker ob of
              None \<Rightarrow> None
            | Some pw \<Rightarrow>
                if percent_of pw \<noteq> lastPercent mon \<and> percent_of pw mod 10 = 0 \<and> percent_of pw > 0
                then Some (percent_of pw) else None))"

fun milestones ::
  "estimator \<Rightarrow> platform \<Rightarrow> sys_id \<Rightarrow> int \<Rightarrow> observation list \<Rightarrow> monitor \<times> store \<Rightarrow> int list" where
  "milestones est pf batchRequestId startTime [] ms = []"
| "milestones est pf batchRequestId startTime (ob # obs) ms =
     (case poll est pf batchRequestId startTime ob ms of
        Break ms' \<Rightarrow> fired ms ms'
      | Continue ms' \<Rightarrow> fired ms ms' @ milestones est pf batchRequestId startTime obs ms')"

definition progress_of :: "store \<Rightarrow> sys_id \<Rightarrow> int option" where
  "progress_of st b = map_option br_overall_progress (batch_requests st b)"

text \<open>The overall progress of the batch after each pass of a run.\<close>

fun progress_trace ::
  "estimator \<Rightarrow> platform \<Rightarrow> sys_id \<Rightarrow> int \<Rightarrow> observation list \<Rightarrow> monitor \<times> store \<Rightarrow> int option list" where
  "progress_trace est pf batchRequestId startTime [] ms = []"
| "progress_trace est pf batchRequestId startTime (ob # obs) ms =
     (case poll est pf batchRequestId startTime ob ms of
        Break ms' \<Rightarrow> [progress_of (snd ms') batchRequestId]
      | Continue ms' \<Rightarrow>
          progress_of (snd ms') batchRequestId #
          progress_trace est pf batchRequestId startTime obs ms')"

text \<open>The percentages a list of passes reads from the worker.\<close>

definition percents :: "observation list \<Rightarrow> int list" where
  "percents obs = map percent_of (List.map_filter ob_worker obs)"

definition reads :: "int list \<Rightarrow> observation list" where
  "reads ps = map (\<lambda>p. \<lparr>ob_time = 20, ob_worker = Some (running ''Installing'' p)\<rparr>) ps"






text \<open>
  What the ground-truth sync makes of one row of the item table (the row does not depend
  on the log), and the success and failure entries of an item.
\<close>

definition synced_row :: "platform \<Rightarrow> int \<Rightarrow> sys_id \<Rightarrow> batch_item \<Rightarrow> batch_item" where
  "synced_row pf now b it =
     (if bi_batch_request it = b
      then fst (syncFinalItemStates_item pf now b it ((new_logger, empty_store), 0))
      else it)"

definition is_success_entry :: "sys_id \<Rightarrow> batch_item \<Rightarrow> log_entry \<Rightarrow> bool" where
  "is_success_entry b it e =
     (le_batch_request e = b \<and> le_batch_item e = Some (bi_sys_id it)
      \<and> le_activity_type e = A_success \<and> le_progress_percent e = Some 100)"

definition is_failure_entry :: "sys_id \<Rightarrow> batch_item \<Rightarrow> log_entry \<Rightarrow> bool" where
  "is_failure_entry b it e =
     (le_batch_request e = b \<and> le_batch_item e = Some (bi_sys_id it)
      \<and> le_activity_type e = A_error
      \<and> le_message e = ''Failed to install '' @ js_str (getValue (bi_application_name it)) @
           '': Version not updated to '' @ js_str (getValue (bi_to_version it)))"

definition mismatch_message :: "string \<Rightarrow> string \<Rightarrow> string" where
  "mismatch_message target current =
     ''Version mismatch after install. Expected '' @ js_str (getValue target) @
     '', found '' @ js_str (getValue current)"

text \<open>
  The installation after the installer has brought \<open>a1\<close> to 2.0.0, and the run of the
  monitor that then sees the worker complete.
\<close>

definition installed_platform :: platform where
  "installed_platform =
     example_platform\<lparr>pf_store_apps :=
       [''a1'' \<mapsto> \<lparr>sa_display_value = ''App One'', sa_version = ''2.0.0''\<rparr>]\<rparr>"

definition installed_run :: "(monitor \<times> store) option" where
  "installed_run =
     execute example_estimator installed_platform ''b1'' ''pw'' 10
       [\<lparr>ob_time = 40, ob_worker = Some (complete ''Done'')\<rparr>] started_store"

text \<open>The entries the sync owes an item of the batch whose application is on record.\<close>

definition sync_logged :: "platform \<Rightarrow> sys_id \<Rightarrow> batch_item \<Rightarrow> log_entry list \<Rightarrow> bool" where
  "sync_logged pf b it es =
     (case gr_get (pf_store_apps pf) (bi_application it) of
        None \<Rightarrow> True
      | Some appGr \<Rightarrow>
          (if sa_version appGr = bi_to_version it
           then bi_state it = I_completed \<or> list_ex (is_success_entry b it) es
           else bi_state it \<noteq> I_installing \<or> list_ex (is_failure_entry b it) es))"

text \<open>
  A run of the monitor up to its last pass: the state in which \<open>execute\<close> enters the loop
  (the start entry is written), and the state after a list of passes that all continue,
  \<open>None\<close> when one of them ends the loop.
\<close>

definition monitor_started :: "sys_id \<Rightarrow> string \<Rightarrow> store \<Rightarrow> monitor \<times> store" where
  "monitor_started batchRequestId progressWorkerId st =
     (let (lg, st1) =
            log batchRequestId None A_info Ph_installation
              (''Progress monitor started. Tracking worker: '' @ progressWorkerId) no_options
              (mon_logger new_monitor, st)
      in (new_monitor\<lparr>mon_logger := lg\<rparr>, st1))"

fun passes ::
  "estimator \<Rightarrow> platform \<Rightarrow> sys_id \<Rightarrow> int \<Rightarrow> observation list \<Rightarrow> monitor \<times> store \<Rightarrow>
   (monitor \<times> store) option" where
  "passes est pf batchRequestId startTime [] ms = Some ms"
| "passes est pf batchRequestId startTime (ob # obs) ms =
     (case poll est pf batchRequestId startTime ob ms of
        Break ms' \<Rightarrow> None
      | Continue ms' \<Rightarrow> passes est pf batchRequestId startTime obs ms')"

text \<open>
  What the estimate (\<open>_parseAndUpdateItems\<close>) may have made of an item of the table
  since the monitor started: the same item of the same batch, application and target
  version, \<open>installing\<close> as before or \<open>completed\<close> with progress 100 when it was
  \<open>installing\<close>, and unchanged otherwise.
\<close>

definition estimated :: "batch_item \<Rightarrow> batch_item \<Rightarrow> bool" where
  "estimated it0 it =
     (bi_sys_id it = bi_sys_id it0 \<and> bi_batch_request it = bi_batch_request it0
      \<and> bi_application it = bi_application it0
      \<and> bi_application_name it = bi_application_name it0
      \<and> bi_to_version it = bi_to_version it0
      \<and> (if bi_state it0 = I_installing
          then bi_state it = I_installing
               \<or> (bi_state it = I_completed \<and> bi_progress_percent it = 100)
          else it = it0))"

definition estimated_rows :: "batch_item list \<Rightarrow> batch_item list \<Rightarrow> bool" where
  "estimated_rows rows0 rows =
     (length rows = length rows0 \<and> (\<forall>j < length rows0. estimated (rows0 ! j) (rows ! j)))"

text \<open>
  A last pass in which the worker completes with the message \<open>Installing\<close> that it has
  in the passes of \<open>reads\<close>, so that this pass does not estimate the items again.
\<close>

definition completes :: observation where
  "completes = \<lparr>ob_time = 40, ob_worker = Some (complete ''Installing'')\<rparr>"

text \<open>
  The dependency graph among the candidates: an edge from a candidate to each of its
  dependencies that is a candidate too. \<open>precedes d a xs\<close>: \<open>d\<close> occurs in \<open>xs\<close> and \<open>a\<close>
  occurs after its first occurrence.
\<close>

definition in_set_deps :: "sys_id list \<Rightarrow> dep_map \<Rightarrow> (sys_id \<times> sys_id) set" where
  "in_set_deps appIds depMap =
     {(a, d). a \<in> set appIds \<and> d \<in> set (deps_of depMap a) \<and> d \<in> set appIds}"

fun precedes :: "'a \<Rightarrow> 'a \<Rightarrow> 'a list \<Rightarrow> bool" where
  "precedes d a [] = False"
| "precedes d a (x # xs) = (if x = d then a \<in> set xs else precedes d a xs)"

text \<open>
  What holds of the sort's variables between two calls of \<open>visit\<close>: the order has no
  repetition and holds exactly the identifiers that \<open>visited\<close> has as own property
  \<open>true\<close>, all candidates; none of them is marked in \<open>visiting\<close>; no inherited name has
  become an own property of either object; and as long as no conflict is recorded, every
  identifier in the order comes after its dependencies among the candidates. A step of
  the sort keeps this, gives back \<open>visiting\<close> as it found it (the same identifiers read
  truthy, the same are marked \<open>true\<close>), forgets no visited identifier and removes no
  conflict. \<open>fuel_left\<close> counts the candidates that are not marked in \<open>visiting\<close>: the
  depth \<open>visit\<close> can still reach.
\<close>

definition sort_inv :: "string list \<Rightarrow> sys_id list \<Rightarrow> dep_map \<Rightarrow> sort_state \<Rightarrow> bool" where
  "sort_inv proto appIds depMap st =
     (distinct (ss_order st)
      \<and> set (ss_order st) = {x. ss_visited st x = Some True}
      \<and> (\<forall>x. ss_visited st x = Some True \<longrightarrow> ss_visiting st x \<noteq> Some True)
      \<and> set (ss_order st) \<subseteq> set appIds
      \<and> (\<forall>x \<in> set proto. ss_visited st x = None \<and> ss_visiting st x = None)
      \<and> (ss_conflicts st = [] \<longrightarrow>
           (\<forall>a \<in> set (ss_order st). \<forall>d \<in> set (deps_of depMap a).
              d \<in> set appIds \<longrightarrow> precedes d a (ss_order st))))"

definition sort_step :: "string list \<Rightarrow> sys_id list \<Rightarrow> dep_map \<Rightarrow> sort_state \<Rightarrow> sort_state \<Rightarrow> bool" where
  "sort_step proto appIds depMap st st' =
     (sort_inv proto appIds depMap st'
      \<and> (\<forall>x. truthy_prop proto (ss_visiting st') x = truthy_prop proto (ss_visiting st) x)
      \<and> (\<forall>x. (ss_visiting st' x = Some True) = (ss_visiting st x = Some True))
      \<and> (\<forall>x. ss_visited st x = Some True \<longrightarrow> ss_visited st' x = Some True)
      \<and> (ss_conflicts st' = [] \<longrightarrow> ss_conflicts st = []))"

definition fuel_left :: "sys_id list \<Rightarrow> sort_state \<Rightarrow> nat" where
  "fuel_left appIds st = card {x \<in> set appIds. ss_visiting st x \<noteq> Some True}"



definition cycle_deps :: dep_map where
  "cycle_deps = [''a'' \<mapsto> [''b'', ''x''], ''b'' \<mapsto> [''c''], ''c'' \<mapsto> [''a'']]"


definition inherited_cycle_deps :: dep_map where
  "inherited_cycle_deps = [''a'' \<mapsto> [''b''], ''b'' \<mapsto> [''a''], ''constructor'' \<mapsto> []]"


section \<open>Properties of the update-level classification\<close>








section \<open>Sequence numbers of the activity log\<close>

lemma in_sequence_iff:
  "in_sequence (lg, st) (lg', st') \<longleftrightarrow>
     (\<exists>es. activity_log st' = activity_log st @ es
          \<and> sequenceCounter lg \<le> sequenceCounter lg'
          \<and> map le_sequence es = [Suc (sequenceCounter lg) ..< Suc (sequenceCounter lg')])"
  by (auto simp: in_sequence_def written_since_def)

lemma in_sequence_same_log:
  "activity_log st' = activity_log st \<Longrightarrow> in_sequence (lg, st) (lg, st')"
  by (simp add: in_sequence_iff)

lemma upt_glue:
  assumes "a \<le> b" and "b \<le> (c::nat)"
  shows "[Suc a ..< Suc b] @ [Suc b ..< Suc c] = [Suc a ..< Suc c]"
proof -
  have "[Suc a ..< Suc b + (c - b)] = [Suc a ..< Suc b] @ [Suc b ..< Suc b + (c - b)]"
    using assms(1) by (intro upt_add_eq_append) simp
  moreover have "Suc b + (c - b) = Suc c"
    using assms(2) by simp
  ultimately show ?thesis by simp
qed

lemma in_sequence_trans:
  assumes "in_sequence a b" and "in_sequence b c"
  shows "in_sequence a c"
proof -
  obtain la sa lb sb lc sc where [simp]: "a = (la, sa)" "b = (lb, sb)" "c = (lc, sc)"
    by (cases a, cases b, cases c) auto
  from assms obtain es fs where
    e: "activity_log sb = activity_log sa @ es" "sequenceCounter la \<le> sequenceCounter lb"
       "map le_sequence es = [Suc (sequenceCounter la) ..< Suc (sequenceCounter lb)]" and
    f: "activity_log sc = activity_log sb @ fs" "sequenceCounter lb \<le> sequenceCounter lc"
       "map le_sequence fs = [Suc (sequenceCounter lb) ..< Suc (sequenceCounter lc)]"
    by (auto simp: in_sequence_iff)
  have "activity_log sc = activity_log sa @ (es @ fs)"
    using e(1) f(1) by simp
  moreover have "map le_sequence (es @ fs) = [Suc (sequenceCounter la) ..< Suc (sequenceCounter lc)]"
    using e f upt_glue by simp
  moreover have "sequenceCounter la \<le> sequenceCounter lc"
    using e(2) f(2) by simp
  ultimately show ?thesis
    unfolding in_sequence_iff \<open>a = _\<close> \<open>c = _\<close> by blast
qed

lemma in_sequence_log:
  "in_sequence ls (log b i t ph m opts ls)"
  by (cases ls) (simp add: in_sequence_iff log_def Let_def)

lemma log_frame [simp]:
  "batch_requests (snd (log b i t ph m opts ls)) = batch_requests (snd ls)"
  "batch_items (snd (log b i t ph m opts ls)) = batch_items (snd ls)"
  by (simp_all add: log_def Let_def split_def)

lemma update_batch_frame [simp]:
  "activity_log (update_batch b f st) = activity_log st"
  "batch_items (update_batch b f st) = batch_items st"
  by (simp_all add: update_batch_def split: option.splits)

lemma createBatchItems_frame [simp]:
  "activity_log (snd (createBatchItems pf b ids st)) = activity_log st"
  "batch_requests (snd (createBatchItems pf b ids st)) = batch_requests st"
  "fst (createBatchItems pf b ids st) = True"
  by (simp_all add: createBatchItems_def)

lemma markAllItemsInstalling_frame [simp]:
  "activity_log (markAllItemsInstalling now b st) = activity_log st"
  "batch_requests (markAllItemsInstalling now b st) = batch_requests st"
  by (simp_all add: markAllItemsInstalling_def)

lemma updateQueuedItemsState_frame [simp]:
  "activity_log (updateQueuedItemsState b s st) = activity_log st"
  "batch_requests (updateQueuedItemsState b s st) = batch_requests st"
  by (simp_all add: updateQueuedItemsState_def)

lemma createBatchRequest_in_sequence:
  "createBatchRequest pf ids opts (mgr, st) = (r, mgr', st') \<Longrightarrow>
     in_sequence (mgr_logger mgr, st) (mgr_logger mgr', st')"
  by (auto simp: createBatchRequest_def in_sequence_iff log_def Let_def split_def
           split: if_splits option.splits)

lemma executeBatchInstall_in_sequence:
  "executeBatchInstall now run b (mgr, st) = (r, mgr', st') \<Longrightarrow>
     in_sequence (mgr_logger mgr, st) (mgr_logger mgr', st')"
  by (auto simp: executeBatchInstall_def in_sequence_iff log_def Let_def split_def
           split: if_splits option.splits sum.splits)

lemma cancelBatchInstall_in_sequence:
  "cancelBatchInstall pf now b (mgr, st) = (r, mgr', st') \<Longrightarrow>
     in_sequence (mgr_logger mgr, st) (mgr_logger mgr', st')"
  by (auto simp: cancelBatchInstall_def in_sequence_iff log_def Let_def split_def
           split: if_splits option.splits)


lemma logAppInstallComplete_in_sequence:
  "in_sequence ls (logAppInstallComplete b i n v d ls)"
  by (simp add: logAppInstallComplete_def Let_def in_sequence_log)

lemma logAppInstallFailed_in_sequence:
  "in_sequence ls (logAppInstallFailed b i n e ls)"
  by (simp add: logAppInstallFailed_def in_sequence_log)

lemma logBatchComplete_in_sequence:
  "in_sequence ls (logBatchComplete b summary ls)"
  by (simp add: logBatchComplete_def Let_def in_sequence_log)

lemma log_helpers_frame [simp]:
  "batch_requests (snd (logAppInstallComplete b i n v d ls)) = batch_requests (snd ls)"
  "batch_items (snd (logAppInstallComplete b i n v d ls)) = batch_items (snd ls)"
  "batch_requests (snd (logAppInstallFailed b i n e ls)) = batch_requests (snd ls)"
  "batch_items (snd (logAppInstallFailed b i n e ls)) = batch_items (snd ls)"
  "batch_requests (snd (logBatchComplete b summary ls)) = batch_requests (snd ls)"
  "batch_items (snd (logBatchComplete b summary ls)) = batch_items (snd ls)"
  by (simp_all add: logAppInstallComplete_def logAppInstallFailed_def logBatchComplete_def Let_def)

lemma in_sequence_refl: "in_sequence ls ls"
  by (cases ls) (simp add: in_sequence_same_log)

lemma sync_item_in_sequence:
  "syncFinalItemStates_item pf now b it (ls, f) = (it', ls', f') \<Longrightarrow>
     in_sequence ls ls' \<and> batch_requests (snd ls') = batch_requests (snd ls)
     \<and> batch_items (snd ls') = batch_items (snd ls)"
  by (auto simp: syncFinalItemStates_item_def Let_def in_sequence_refl
        logAppInstallComplete_in_sequence logAppInstallFailed_in_sequence
      split: option.splits if_splits)



lemma sync_loop_in_sequence:
  "syncFinalItemStates_loop pf now b rows (ls, f) = (rows', ls', f') \<Longrightarrow>
     in_sequence ls ls' \<and> batch_requests (snd ls') = batch_requests (snd ls)
     \<and> batch_items (snd ls') = batch_items (snd ls) \<and> length rows' = length rows"
proof (induction rows arbitrary: ls f rows' ls' f')
  case Nil
  then show ?case by (simp add: in_sequence_refl)
next
  case (Cons it rows)
  show ?case
  proof (cases "bi_batch_request it = b")
    case True
    obtain it1 ls1 f1 where i: "syncFinalItemStates_item pf now b it (ls, f) = (it1, ls1, f1)"
      by (cases "syncFinalItemStates_item pf now b it (ls, f)") auto
    obtain rows2 ls2 f2 where r: "syncFinalItemStates_loop pf now b rows (ls1, f1) = (rows2, ls2, f2)"
      by (cases "syncFinalItemStates_loop pf now b rows (ls1, f1)") auto
    from Cons.prems True i r have eq: "rows' = it1 # rows2" "ls' = ls2" "f' = f2"
      by simp_all
    have "in_sequence ls ls1" "in_sequence ls1 ls2"
      using sync_item_in_sequence [OF i] Cons.IH [OF r] by simp_all
    then have "in_sequence ls ls2" by (rule in_sequence_trans)
    then show ?thesis
      unfolding eq using sync_item_in_sequence [OF i] Cons.IH [OF r] by simp
  next
    case False
    obtain rows2 ls2 f2 where r: "syncFinalItemStates_loop pf now b rows (ls, f) = (rows2, ls2, f2)"
      by (cases "syncFinalItemStates_loop pf now b rows (ls, f)") auto
    from Cons.prems False r have eq: "rows' = it # rows2" "ls' = ls2" "f' = f2"
      by simp_all
    from Cons.IH [OF r] show ?thesis
      unfolding eq by simp
  qed
qed

lemma syncFinalItemStates_in_sequence:
  assumes "syncFinalItemStates pf now b (mon, st) = (mon', st')"
  shows "in_sequence (mon_logger mon, st) (mon_logger mon', st')"
    and "batch_requests st' = batch_requests st"
    and "lastPercent mon' = lastPercent mon"
proof -
  obtain rows ls1 f where
    r: "syncFinalItemStates_loop pf now b (batch_items st) ((mon_logger mon, st), failedApps mon)
          = (rows, ls1, f)"
    by (cases "syncFinalItemStates_loop pf now b (batch_items st) ((mon_logger mon, st), failedApps mon)") auto
  obtain lg st1 where ls1: "ls1 = (lg, st1)" by (cases ls1) auto
  from r assms have eq: "mon' = mon\<lparr>mon_logger := lg, failedApps := f\<rparr>" "st' = st1\<lparr>batch_items := rows\<rparr>"
    by (simp_all add: syncFinalItemStates_def ls1)
  from sync_loop_in_sequence [OF r]
  have s: "in_sequence (mon_logger mon, st) (lg, st1)" "batch_requests st1 = batch_requests st"
    by (simp_all add: ls1)
  from s(1) show "in_sequence (mon_logger mon, st) (mon_logger mon', st')"
    unfolding eq by (simp add: in_sequence_iff)
  from s(2) show "batch_requests st' = batch_requests st"
    unfolding eq by simp
  show "lastPercent mon' = lastPercent mon"
    unfolding eq by simp
qed


lemma parseAndUpdateItems_frame [simp]:
  "mon_logger (fst (parseAndUpdateItems est now b m p ms)) = mon_logger (fst ms)"
  "lastPercent (fst (parseAndUpdateItems est now b m p ms)) = lastPercent (fst ms)"
  "lastMessage (fst (parseAndUpdateItems est now b m p ms)) = lastMessage (fst ms)"
  "pollCount (fst (parseAndUpdateItems est now b m p ms)) = pollCount (fst ms)"
  "activity_log (snd (parseAndUpdateItems est now b m p ms)) = activity_log (snd ms)"
  "batch_requests (snd (parseAndUpdateItems est now b m p ms)) = batch_requests (snd ms)"
  by (simp_all add: parseAndUpdateItems_def Let_def split_def)

lemma finalizeBatch_in_sequence:
  "in_sequence (mon_logger (fst ms), snd ms)
     (mon_logger (fst (finalizeBatch b start now s m ms)), snd (finalizeBatch b start now s m ms))"
  by (cases ms)
     (simp add: finalizeBatch_def logBatchComplete_def log_def Let_def split_def in_sequence_iff)

lemma finalizeBatch_frame [simp]:
  "batch_items (snd (finalizeBatch b start now s m ms)) = batch_items (snd ms)"
  "lastPercent (fst (finalizeBatch b start now s m ms)) = lastPercent (fst ms)"
  "out_summary (fst (finalizeBatch b start now s m ms)) = Some m"
  by (simp_all add: finalizeBatch_def logBatchComplete_def log_def Let_def split_def)

lemma message_block_in_sequence:
  "in_sequence (mon_logger (fst ms), snd ms)
     (mon_logger (fst (message_block est b now pw ms)), snd (message_block est b now pw ms))"
  by (cases ms)
     (simp add: message_block_def Let_def split_def in_sequence_refl,
      simp add: log_def Let_def in_sequence_iff)

lemma milestone_block_in_sequence:
  "in_sequence (mon_logger (fst ms), snd ms)
     (mon_logger (fst (milestone_block b pw ms)), snd (milestone_block b pw ms))"
  by (cases ms)
     (simp add: milestone_block_def Let_def split_def in_sequence_refl updateBatchProgress_def
        in_sequence_same_log)


lemma terminal_block_in_sequence:
  "terminal_block pf b start now pw ms = r \<Longrightarrow> r = Continue ms' \<or> r = Break ms' \<Longrightarrow>
     in_sequence (mon_logger (fst ms), snd ms) (mon_logger (fst ms'), snd ms')"
proof -
  assume t: "terminal_block pf b start now pw ms = r" and r: "r = Continue ms' \<or> r = Break ms'"
  obtain mon st where ms: "ms = (mon, st)" by (cases ms) auto
  show ?thesis
  proof (cases "is_terminal (pw_state pw)")
    case False
    with t r have "ms' = ms" by (auto simp: terminal_block_def Let_def ms)
    then show ?thesis by (simp add: in_sequence_refl)
  next
    case True
    define ls1 where "ls1 = (if pw_error_message pw \<noteq> [] then
                     log b None A_error Ph_post_install
                       (''Installation error: '' @ pw_error_message pw) no_options (mon_logger mon, st)
                   else (mon_logger mon, st))"
    define ms2 where "ms2 = syncFinalItemStates pf now b (mon\<lparr>mon_logger := fst ls1\<rparr>, snd ls1)"
    have a: "in_sequence (mon_logger mon, st) ls1"
      by (simp add: ls1_def in_sequence_log in_sequence_refl)
    have b: "in_sequence ls1 (mon_logger (fst ms2), snd ms2)"
      using syncFinalItemStates_in_sequence(1) [of pf now b "mon\<lparr>mon_logger := fst ls1\<rparr>" "snd ls1" "fst ms2" "snd ms2"]
      by (simp add: ms2_def)
    from True t r have "ms' = finalizeBatch b start now
        (if pw_state pw = ''complete'' then B_completed else B_failed)
        (if pw_output_summary pw \<noteq> [] then pw_output_summary pw else pw_message pw) ms2"
      by (auto simp: terminal_block_def Let_def ms split_def ms2_def ls1_def)
    then have c: "in_sequence (mon_logger (fst ms2), snd ms2) (mon_logger (fst ms'), snd ms')"
      using finalizeBatch_in_sequence by simp
    from a b c show ?thesis unfolding ms fst_conv snd_conv
      by (blast intro: in_sequence_trans)
  qed
qed

lemma timeout_block_in_sequence:
  "in_sequence (mon_logger (fst ms), snd ms)
     (mon_logger (fst (timeout_block b start now ms)), snd (timeout_block b start now ms))"
  by (cases ms)
     (simp add: timeout_block_def finalizeBatch_def logBatchComplete_def log_def Let_def split_def
        in_sequence_iff)

lemma not_found_block_in_sequence:
  "in_sequence (mon_logger (fst ms), snd ms)
     (mon_logger (fst (not_found_block b start now ms)), snd (not_found_block b start now ms))"
  by (cases ms)
     (simp add: not_found_block_def finalizeBatch_def logBatchComplete_def log_def Let_def split_def
        in_sequence_iff)

lemma poll_in_sequence:
  assumes "poll est pf b start ob ms = r" and "r = Continue ms' \<or> r = Break ms'"
  shows "in_sequence (mon_logger (fst ms), snd ms) (mon_logger (fst ms'), snd ms')"
proof -
  obtain mon0 st where ms: "ms = (mon0, st)" by (cases ms) auto
  define mon where "mon = mon0\<lparr>pollCount := pollCount mon0 + 1\<rparr>"
  have lg: "mon_logger mon = mon_logger mon0" by (simp add: mon_def)
  show ?thesis
  proof (cases "ob_time ob - start > MAX_POLL_TIME_MS")
    case True
    with assms have "ms' = timeout_block b start (ob_time ob) (mon, st)"
      by (auto simp: poll_def Let_def ms mon_def)
    then show ?thesis
      using timeout_block_in_sequence [of "(mon, st)" b start "ob_time ob"] by (simp add: ms lg)
  next
    case False
    show ?thesis
    proof (cases "ob_worker ob")
      case None
      with False assms have "ms' = not_found_block b start (ob_time ob) (mon, st) \<or> ms' = (mon, st)"
        by (auto simp: poll_def Let_def ms mon_def split: if_splits)
      then show ?thesis
        using not_found_block_in_sequence [of "(mon, st)" b start "ob_time ob"]
        by (auto simp: ms lg in_sequence_refl)
    next
      case (Some pw)
      define ms1 where "ms1 = message_block est b (ob_time ob) pw (mon, st)"
      define ms2 where "ms2 = milestone_block b pw ms1"
      from Some False assms have t: "terminal_block pf b start (ob_time ob) pw ms2 = r"
        by (simp add: poll_def Let_def ms mon_def ms1_def ms2_def)
      have "in_sequence (mon_logger mon, st) (mon_logger (fst ms1), snd ms1)"
        using message_block_in_sequence [of "(mon, st)" est b "ob_time ob" pw] by (simp add: ms1_def)
      moreover have "in_sequence (mon_logger (fst ms1), snd ms1) (mon_logger (fst ms2), snd ms2)"
        using milestone_block_in_sequence [of ms1 b pw] by (simp add: ms2_def)
      moreover have "in_sequence (mon_logger (fst ms2), snd ms2) (mon_logger (fst ms'), snd ms')"
        using terminal_block_in_sequence [OF t assms(2)] .
      ultimately show ?thesis
        unfolding ms fst_conv snd_conv lg [symmetric] by (blast intro: in_sequence_trans)
    qed
  qed
qed

lemma poll_loop_in_sequence:
  "poll_loop est pf b start obs ms = Some ms' \<Longrightarrow>
     in_sequence (mon_logger (fst ms), snd ms) (mon_logger (fst ms'), snd ms')"
proof (induction obs arbitrary: ms)
  case Nil
  then show ?case by simp
next
  case (Cons ob obs)
  show ?case
  proof (cases "poll est pf b start ob ms")
    case (Continue ms1)
    with Cons.prems have "poll_loop est pf b start obs ms1 = Some ms'" by simp
    from Cons.IH [OF this] poll_in_sequence [OF Continue] show ?thesis
      by (blast intro: in_sequence_trans)
  next
    case (Break ms1)
    with Cons.prems have "ms' = ms1" by simp
    with poll_in_sequence [OF Break] show ?thesis by simp
  qed
qed

lemma execute_in_sequence:
  assumes "execute est pf b w start obs st = Some (mon', st')"
  shows "in_sequence (new_logger, st) (mon_logger mon', st')"
proof -
  define ls where "ls = log b None A_info Ph_installation
              (''Progress monitor started. Tracking worker: '' @ w) no_options (new_logger, st)"
  from assms have "poll_loop est pf b start obs (new_monitor\<lparr>mon_logger := fst ls\<rparr>, snd ls) = Some (mon', st')"
    by (simp add: execute_def ls_def split_def Let_def new_monitor_def)
  from poll_loop_in_sequence [OF this]
  have "in_sequence ls (mon_logger mon', st')" by simp
  moreover have "in_sequence (new_logger, st) ls"
    unfolding ls_def by (rule in_sequence_log)
  ultimately show ?thesis by (blast intro: in_sequence_trans)
qed



lemma in_sequence_strict:
  assumes "in_sequence a c"
  shows "sorted_wrt (<) (map le_sequence (filter P (written_since (snd a) (snd c))))"
proof -
  have "map le_sequence (written_since (snd a) (snd c)) =
          [Suc (sequenceCounter (fst a)) ..< Suc (sequenceCounter (fst c))]"
    using assms unfolding in_sequence_def by blast
  then have "sorted_wrt (<) (map le_sequence (written_since (snd a) (snd c)))"
    by (simp only: sorted_wrt_upt)
  then have "sorted_wrt (\<lambda>x y. le_sequence x < le_sequence y) (written_since (snd a) (snd c))"
    by (simp add: sorted_wrt_map)
  then have "sorted_wrt (\<lambda>x y. le_sequence x < le_sequence y) (filter P (written_since (snd a) (snd c)))"
    by (rule sorted_wrt_filter)
  then show ?thesis by (simp add: sorted_wrt_map)
qed

text \<open>
  C5, as the claim states it, fails: the counter belongs to the logger instance and starts
  at zero in each. The manager that creates and starts batch \<open>b1\<close> writes sequences 1 to 4;
  the monitor of the same batch has a logger of its own and writes 1, 2, 3 again.
\<close>

theorem activity_log_sequence_counterexample:
  "map_option (\<lambda>(mon, st). map le_sequence (filter (\<lambda>e. le_batch_request e = ''b1'') (activity_log st)))
     (execute example_estimator example_platform ''b1'' ''pw'' 10
        [\<lparr>ob_time = 40, ob_worker = Some (complete ''Done'')\<rparr>] started_store)
   = Some [1, 2, 3, 4, 1, 2, 3]"
  by code_simp

text \<open>
  C5 (amended). The entries one logger instance writes carry consecutive sequence values
  that continue its counter: each call of \<open>createBatchRequest\<close>, \<open>executeBatchInstall\<close> and
  \<open>cancelBatchInstall\<close> through a manager appends entries numbered from the manager's
  counter plus one, without gap or repetition, and a run of the monitor that ends appends
  entries numbered 1, 2, ... from its own fresh logger; among them the entries of any one
  batch are strictly increasing.
\<close>

theorem activity_log_sequence_per_logger:
  "in_sequence (mgr_logger mgr, st)
     (mgr_logger (fst (snd (createBatchRequest pf ids opts (mgr, st)))),
      snd (snd (createBatchRequest pf ids opts (mgr, st))))
   \<and> in_sequence (mgr_logger mgr, st)
     (mgr_logger (fst (snd (executeBatchInstall now run b (mgr, st)))),
      snd (snd (executeBatchInstall now run b (mgr, st))))
   \<and> in_sequence (mgr_logger mgr, st)
     (mgr_logger (fst (snd (cancelBatchInstall pf now b (mgr, st)))),
      snd (snd (cancelBatchInstall pf now b (mgr, st))))
   \<and> (execute est pf b w start obs st = Some ms' \<longrightarrow>
        in_sequence (new_logger, st) (mon_logger (fst ms'), snd ms')
        \<and> map le_sequence (written_since st (snd ms')) = [1 ..< Suc (sequenceCounter (mon_logger (fst ms')))]
        \<and> sorted_wrt (<) (map le_sequence
             (filter (\<lambda>e. le_batch_request e = b') (written_since st (snd ms')))))"
proof (intro conjI impI)
  show "in_sequence (mgr_logger mgr, st)
     (mgr_logger (fst (snd (createBatchRequest pf ids opts (mgr, st)))),
      snd (snd (createBatchRequest pf ids opts (mgr, st))))"
    by (rule createBatchRequest_in_sequence [of pf ids opts mgr st "fst (createBatchRequest pf ids opts (mgr, st))"]) simp
  show "in_sequence (mgr_logger mgr, st)
     (mgr_logger (fst (snd (executeBatchInstall now run b (mgr, st)))),
      snd (snd (executeBatchInstall now run b (mgr, st))))"
    by (rule executeBatchInstall_in_sequence [of now run b mgr st "fst (executeBatchInstall now run b (mgr, st))"]) simp
  show "in_sequence (mgr_logger mgr, st)
     (mgr_logger (fst (snd (cancelBatchInstall pf now b (mgr, st)))),
      snd (snd (cancelBatchInstall pf now b (mgr, st))))"
    by (rule cancelBatchInstall_in_sequence [of pf now b mgr st "fst (cancelBatchInstall pf now b (mgr, st))"]) simp
next
  assume e: "execute est pf b w start obs st = Some ms'"
  then have "execute est pf b w start obs st = Some (fst ms', snd ms')" by simp
  from execute_in_sequence [OF this]
  show s: "in_sequence (new_logger, st) (mon_logger (fst ms'), snd ms')" .
  then show "map le_sequence (written_since st (snd ms')) = [1 ..< Suc (sequenceCounter (mon_logger (fst ms')))]"
    by (simp add: in_sequence_def new_logger_def)
  from in_sequence_strict [OF s]
  show "sorted_wrt (<) (map le_sequence
             (filter (\<lambda>e. le_batch_request e = b') (written_since st (snd ms'))))"
    by simp
qed

theorem activity_log_sequence_per_logger_witness:
  "execute example_estimator example_platform ''b1'' ''pw'' 10
        [\<lparr>ob_time = 40, ob_worker = Some (complete ''Done'')\<rparr>] started_store \<noteq> None
   \<and> map le_sequence (written_since started_store (snd (the
        (execute example_estimator example_platform ''b1'' ''pw'' 10
          [\<lparr>ob_time = 40, ob_worker = Some (complete ''Done'')\<rparr>] started_store))))
      = [1 ..< Suc (sequenceCounter (mon_logger (fst (the
        (execute example_estimator example_platform ''b1'' ''pw'' 10
          [\<lparr>ob_time = 40, ob_worker = Some (complete ''Done'')\<rparr>] started_store)))))]
   \<and> sequenceCounter (mon_logger (fst (the
        (execute example_estimator example_platform ''b1'' ''pw'' 10
          [\<lparr>ob_time = 40, ob_worker = Some (complete ''Done'')\<rparr>] started_store)))) = 3"
proof -
  have h: "execute example_estimator example_platform ''b1'' ''pw'' 10
        [\<lparr>ob_time = 40, ob_worker = Some (complete ''Done'')\<rparr>] started_store \<noteq> None"
    by code_simp
  have c: "sequenceCounter (mon_logger (fst (the
        (execute example_estimator example_platform ''b1'' ''pw'' 10
          [\<lparr>ob_time = 40, ob_worker = Some (complete ''Done'')\<rparr>] started_store)))) = 3"
    by code_simp
  from h have "execute example_estimator example_platform ''b1'' ''pw'' 10
        [\<lparr>ob_time = 40, ob_worker = Some (complete ''Done'')\<rparr>] started_store
      = Some (the (execute example_estimator example_platform ''b1'' ''pw'' 10
        [\<lparr>ob_time = 40, ob_worker = Some (complete ''Done'')\<rparr>] started_store))"
    by simp
  with activity_log_sequence_per_logger [where est = example_estimator and pf = example_platform
      and b = "''b1''" and w = "''pw''" and start = 10
      and obs = "[\<lparr>ob_time = 40, ob_worker = Some (complete ''Done'')\<rparr>]" and st = started_store]
  show ?thesis using h c by blast
qed


section \<open>Creating a batch\<close>

lemma split_on_nonempty: "split_on c s \<noteq> []"
  by (induction s) (auto split: list.splits)

lemma createBatchItems_loop_appends:
  "\<exists>new. createBatchItems_loop pf b ss ord items = items @ new
         \<and> map bi_app_version new = map (pf_trim pf) (filter (resolves pf) ss)
         \<and> (\<forall>it \<in> set new. bi_batch_request it = b \<and> bi_state it = I_queued)"
proof (induction ss arbitrary: ord items)
  case Nil
  then show ?case by simp
next
  case (Cons s ss)
  show ?case
  proof (cases "resolves pf s")
    case False
    then have "createBatchItems_loop pf b (s # ss) ord items = createBatchItems_loop pf b ss ord items"
      by (auto simp: resolves_def Let_def split: option.splits)
    with Cons.IH [of ord items] False show ?thesis by simp
  next
    case True
    then obtain verGr where v: "pf_trim pf s \<noteq> []" "gr_get (pf_app_versions pf) (pf_trim pf s) = Some verGr"
      by (auto simp: resolves_def)
    then obtain itemGr where
      step: "createBatchItems_loop pf b (s # ss) ord items =
               createBatchItems_loop pf b ss (ord + 100) (items @ [itemGr])"
      and it: "bi_app_version itemGr = pf_trim pf s" "bi_batch_request itemGr = b" "bi_state itemGr = I_queued"
      by (simp add: Let_def)
    from Cons.IH [of "ord + 100" "items @ [itemGr]"] obtain new where
      n: "createBatchItems_loop pf b ss (ord + 100) (items @ [itemGr]) = (items @ [itemGr]) @ new"
         "map bi_app_version new = map (pf_trim pf) (filter (resolves pf) ss)"
         "\<forall>it \<in> set new. bi_batch_request it = b \<and> bi_state it = I_queued"
      by blast
    show ?thesis
      by (rule exI [of _ "itemGr # new"]) (use step it n True in simp)
  qed
qed

text \<open>
  C10, as the claim states it, fails when the platform aborts the insert of the batch
  request: \<open>insert()\<close> returns \<open>null\<close>, and \<open>createBatchRequest\<close> returns failure with the
  message \<open>Failed to create batch request record\<close>, for a candidate list with an
  identifier that does not resolve as for any other.
\<close>

theorem createBatchRequest_insert_counterexample:
  "\<not> resolves (example_platform\<lparr>pf_batch_insert := None\<rparr>) '' zz''
   \<and> \<not> cr_success (fst (createBatchRequest (example_platform\<lparr>pf_batch_insert := None\<rparr>)
          ''v1, zz,'' example_options (new_manager, empty_store)))
   \<and> cr_message (fst (createBatchRequest (example_platform\<lparr>pf_batch_insert := None\<rparr>)
          ''v1, zz,'' example_options (new_manager, empty_store))) =
       ''Failed to create batch request record''
   \<and> cr_totalApps (fst (createBatchRequest (example_platform\<lparr>pf_batch_insert := None\<rparr>)
          ''v1, zz,'' example_options (new_manager, empty_store))) = None"
  by code_simp

text \<open>
  C10 (amended). Whenever the platform inserts the batch request record,
  \<open>createBatchRequest\<close> succeeds: \<open>total_apps\<close> and the returned total are the number of
  pieces of the comma-separated input, the entries written are the start and the info
  entry (no error), and one batch item is added for each piece that resolves (trimmed,
  it is not empty and is the \<open>sys_id\<close> of an available version), none for the others; so
  when a piece does not resolve, fewer items are added than the recorded total. When
  the insert is aborted, the call returns failure and leaves the store and the manager
  as they were.
\<close>

theorem createBatchRequest_unresolved_identifiers:
  "(pf_batch_insert pf = Some b \<longrightarrow>
      cr_success (fst (createBatchRequest pf ids opts (mgr, st)))
    \<and> cr_totalApps (fst (createBatchRequest pf ids opts (mgr, st))) =
        Some (length (split_on (CHR '','') ids))
    \<and> map_option br_total_apps (batch_requests (snd (snd (createBatchRequest pf ids opts (mgr, st)))) b) =
        Some (int (length (split_on (CHR '','') ids)))
    \<and> map le_activity_type (written_since st (snd (snd (createBatchRequest pf ids opts (mgr, st))))) =
        [A_start, A_info]
    \<and> batch_items (snd (snd (createBatchRequest pf ids opts (mgr, st)))) =
        batch_items st @ items_added st (snd (snd (createBatchRequest pf ids opts (mgr, st))))
    \<and> map bi_app_version (items_added st (snd (snd (createBatchRequest pf ids opts (mgr, st))))) =
        map (pf_trim pf) (filter (resolves pf) (split_on (CHR '','') ids))
    \<and> (\<forall>it \<in> set (items_added st (snd (snd (createBatchRequest pf ids opts (mgr, st))))).
          bi_batch_request it = b)
    \<and> ((\<exists>s \<in> set (split_on (CHR '','') ids). \<not> resolves pf s) \<longrightarrow>
          length (items_added st (snd (snd (createBatchRequest pf ids opts (mgr, st))))) <
          length (split_on (CHR '','') ids)))
   \<and> (pf_batch_insert pf = None \<longrightarrow>
        \<not> cr_success (fst (createBatchRequest pf ids opts (mgr, st)))
      \<and> cr_message (fst (createBatchRequest pf ids opts (mgr, st))) =
          ''Failed to create batch request record''
      \<and> snd (createBatchRequest pf ids opts (mgr, st)) = (mgr, st))"
proof (intro conjI impI)
  define sysIds where "sysIds = split_on (CHR '','') ids"
  define res where "res = createBatchRequest pf ids opts (mgr, st)"
  have ne: "length sysIds \<noteq> 0"
    by (simp add: sysIds_def split_on_nonempty)
  {
    assume none: "pf_batch_insert pf = None"
    show "\<not> cr_success (fst (createBatchRequest pf ids opts (mgr, st)))"
      using none ne by (simp add: createBatchRequest_def Let_def sysIds_def [symmetric])
    show "cr_message (fst (createBatchRequest pf ids opts (mgr, st))) =
          ''Failed to create batch request record''"
      using none ne by (simp add: createBatchRequest_def Let_def sysIds_def [symmetric])
    show "snd (createBatchRequest pf ids opts (mgr, st)) = (mgr, st)"
      using none ne by (simp add: createBatchRequest_def Let_def sysIds_def [symmetric])
  }
  assume ins: "pf_batch_insert pf = Some b"
  obtain new where
    n: "createBatchItems_loop pf b sysIds 100 (batch_items st) = batch_items st @ new"
       "map bi_app_version new = map (pf_trim pf) (filter (resolves pf) sysIds)"
       "\<forall>it \<in> set new. bi_batch_request it = b \<and> bi_state it = I_queued"
    using createBatchItems_loop_appends by blast
  have r: "cr_success (fst res)" "cr_totalApps (fst res) = Some (length sysIds)"
    using ins ne
    by (simp_all add: res_def createBatchRequest_def Let_def split_def sysIds_def [symmetric])
  have items: "batch_items (snd (snd res)) = batch_items st @ new"
    using ins ne n(1)
    by (simp add: res_def createBatchRequest_def Let_def split_def sysIds_def [symmetric]
        createBatchItems_def log_def)
  then have added: "items_added st (snd (snd res)) = new"
    by (simp add: items_added_def)
  have total: "map_option br_total_apps (batch_requests (snd (snd res)) b) = Some (int (length sysIds))"
    using ins ne
    by (simp add: res_def createBatchRequest_def Let_def split_def sysIds_def [symmetric]
        createBatchItems_def log_def update_batch_def)
  have logs: "map le_activity_type (written_since st (snd (snd res))) = [A_start, A_info]"
    using ins ne
    by (simp add: res_def createBatchRequest_def Let_def split_def sysIds_def [symmetric]
        createBatchItems_def log_def update_batch_def written_since_def)
  have less: "(\<exists>s \<in> set sysIds. \<not> resolves pf s) \<longrightarrow> length new < length sysIds"
  proof
    assume "\<exists>s \<in> set sysIds. \<not> resolves pf s"
    then have "length (filter (resolves pf) sysIds) < length sysIds"
      by (auto intro: length_filter_less)
    moreover have "length new = length (filter (resolves pf) sysIds)"
      using n(2) by (metis length_map)
    ultimately show "length new < length sysIds" by simp
  qed
  show "cr_success (fst (createBatchRequest pf ids opts (mgr, st)))"
    using r(1) by (simp add: res_def)
  show "cr_totalApps (fst (createBatchRequest pf ids opts (mgr, st))) =
        Some (length (split_on (CHR '','') ids))"
    using r(2) by (simp add: res_def sysIds_def)
  show "map_option br_total_apps (batch_requests (snd (snd (createBatchRequest pf ids opts (mgr, st)))) b) =
        Some (int (length (split_on (CHR '','') ids)))"
    using total by (simp add: res_def sysIds_def)
  show "map le_activity_type (written_since st (snd (snd (createBatchRequest pf ids opts (mgr, st))))) =
        [A_start, A_info]"
    using logs by (simp add: res_def)
  show "batch_items (snd (snd (createBatchRequest pf ids opts (mgr, st)))) =
        batch_items st @ items_added st (snd (snd (createBatchRequest pf ids opts (mgr, st))))"
    using items added by (simp add: res_def)
  show "map bi_app_version (items_added st (snd (snd (createBatchRequest pf ids opts (mgr, st))))) =
        map (pf_trim pf) (filter (resolves pf) (split_on (CHR '','') ids))"
    using added n(2) by (simp add: res_def sysIds_def)
  show "\<forall>it \<in> set (items_added st (snd (snd (createBatchRequest pf ids opts (mgr, st))))).
          bi_batch_request it = b"
    using added n(3) by (simp add: res_def)
  assume "\<exists>s \<in> set (split_on (CHR '','') ids). \<not> resolves pf s"
  then show "length (items_added st (snd (snd (createBatchRequest pf ids opts (mgr, st))))) <
          length (split_on (CHR '','') ids)"
    using less added by (simp add: res_def sysIds_def)
qed

theorem createBatchRequest_unresolved_identifiers_witness:
  "pf_batch_insert example_platform = Some ''b1''
   \<and> \<not> resolves example_platform '' zz'' \<and> \<not> resolves example_platform []
   \<and> cr_success (fst (createBatchRequest example_platform ''v1, zz,'' example_options (new_manager, empty_store)))
   \<and> map_option br_total_apps
        (batch_requests (snd (snd (createBatchRequest example_platform ''v1, zz,'' example_options
           (new_manager, empty_store)))) ''b1'') = Some 3
   \<and> map bi_app_version (items_added empty_store
        (snd (snd (createBatchRequest example_platform ''v1, zz,'' example_options
           (new_manager, empty_store))))) = [''v1'']
   \<and> length (items_added empty_store
        (snd (snd (createBatchRequest example_platform ''v1, zz,'' example_options
           (new_manager, empty_store))))) < 3"
proof -
  have h: "pf_batch_insert example_platform = Some ''b1''"
    by (simp add: example_platform_def)
  have s: "split_on (CHR '','') ''v1, zz,'' = [''v1'', '' zz'', []]"
    by simp
  have u: "resolves example_platform ''v1''" "\<not> resolves example_platform '' zz''"
      "\<not> resolves example_platform []"
    by (simp_all add: resolves_def example_platform_def gr_get_def ascii_trim_def is_space_def)
  have t: "pf_trim example_platform ''v1'' = ''v1''"
    by (simp add: example_platform_def ascii_trim_def is_space_def)
  from createBatchRequest_unresolved_identifiers [of example_platform "''b1''" "''v1, zz,''"
      example_options new_manager empty_store]
  show ?thesis using h u t unfolding s by simp
qed

text \<open>
  C9 is what the code sets out to do and misses: the guard \<open>sysIds.length === 0\<close> can
  never hold, since \<open>split\<close> returns at least one piece. With the empty string
  \<open>createBatchRequest\<close> succeeds, stores a batch request with \<open>total_apps = 1\<close> and two log
  entries and no item. The REST resource refuses the empty string itself, but the string
  \<open>","\<close> reaches \<open>createBatchRequest\<close> and starts a batch that has no item.
\<close>

theorem createBatchRequest_empty_selection:
  "(let (r, mgr, st) = createBatchRequest example_platform [] example_options (new_manager, empty_store)
    in (cr_success r, cr_totalApps r, map_option br_total_apps (batch_requests st ''b1''),
        map_option br_state (batch_requests st ''b1''), length (batch_items st), length (activity_log st)))
   = (True, Some 1, Some 1, Some B_draft, 0, 2)
   \<and> (let (resp, st) = postBatchInstall example_platform 5 example_subflow (example_body '','') empty_store
    in (fst resp, map_option br_total_apps (batch_requests st ''b1''),
        map_option br_state (batch_requests st ''b1''), length (batch_items st), length (activity_log st)))
   = (201, Some 2, Some B_in_progress, 0, 4)
   \<and> postBatchInstall example_platform 5 example_subflow (example_body []) empty_store
   = ((400, Body_error ''appVersionSysIds is required''), empty_store)"
proof (intro conjI)
  show "(let (r, mgr, st) = createBatchRequest example_platform [] example_options (new_manager, empty_store)
    in (cr_success r, cr_totalApps r, map_option br_total_apps (batch_requests st ''b1''),
        map_option br_state (batch_requests st ''b1''), length (batch_items st), length (activity_log st)))
   = (True, Some 1, Some 1, Some B_draft, 0, 2)"
    by code_simp
  show "(let (resp, st) = postBatchInstall example_platform 5 example_subflow (example_body '','') empty_store
    in (fst resp, map_option br_total_apps (batch_requests st ''b1''),
        map_option br_state (batch_requests st ''b1''), length (batch_items st), length (activity_log st)))
   = (201, Some 2, Some B_in_progress, 0, 4)"
    by code_simp
  show "postBatchInstall example_platform 5 example_subflow (example_body []) empty_store
   = ((400, Body_error ''appVersionSysIds is required''), empty_store)"
    by (simp add: postBatchInstall_def example_body_def js_or_def)
qed


section \<open>The state of a batch request\<close>





section \<open>The percent milestones\<close>

lemma message_block_frame [simp]:
  "lastPercent (fst (message_block est b now pw ms)) = lastPercent (fst ms)"
  "batch_requests (snd (message_block est b now pw ms)) = batch_requests (snd ms)"
  by (simp_all add: message_block_def Let_def split_def)

lemma syncFinalItemStates_frame [simp]:
  "lastPercent (fst (syncFinalItemStates pf now b ms)) = lastPercent (fst ms)"
  "batch_requests (snd (syncFinalItemStates pf now b ms)) = batch_requests (snd ms)"
  using syncFinalItemStates_in_sequence(2,3) [of pf now b "fst ms" "snd ms"
      "fst (syncFinalItemStates pf now b ms)" "snd (syncFinalItemStates pf now b ms)"]
  by simp_all

lemma terminal_block_lastPercent:
  "terminal_block pf b start now pw ms = r \<Longrightarrow> r = Continue ms' \<or> r = Break ms' \<Longrightarrow>
     lastPercent (fst ms') = lastPercent (fst ms)"
  by (cases ms) (auto simp: terminal_block_def Let_def split_def split: if_splits)

lemma terminal_block_Continue:
  "terminal_block pf b start now pw ms = Continue ms' \<Longrightarrow> ms' = ms \<and> \<not> is_terminal (pw_state pw)"
  by (cases ms) (auto simp: terminal_block_def Let_def split_def split: if_splits)

lemma milestone_block_cases:
  "(lastPercent (fst (milestone_block b pw ms)) = lastPercent (fst ms)
      \<and> snd (milestone_block b pw ms) = snd ms)
   \<or> (lastPercent (fst (milestone_block b pw ms)) = percent_of pw
      \<and> percent_of pw \<noteq> lastPercent (fst ms) \<and> percent_of pw mod 10 = 0 \<and> 0 < percent_of pw
      \<and> snd (milestone_block b pw ms) = updateBatchProgress b (percent_of pw) (snd ms))"
  by (cases ms) (simp add: milestone_block_def Let_def)

lemma timeout_not_found_frame [simp]:
  "lastPercent (fst (timeout_block b start now ms)) = lastPercent (fst ms)"
  "lastPercent (fst (not_found_block b start now ms)) = lastPercent (fst ms)"
  by (simp_all add: timeout_block_def not_found_block_def split_def Let_def)

lemma poll_lastPercent:
  assumes "poll est pf b start ob ms = r" and "r = Continue ms' \<or> r = Break ms'"
  shows "lastPercent (fst ms') = lastPercent (fst ms)
         \<or> (\<exists>pw. ob_worker ob = Some pw \<and> lastPercent (fst ms') = percent_of pw
              \<and> percent_of pw mod 10 = 0 \<and> 0 < percent_of pw)"
proof -
  obtain mon0 st where ms: "ms = (mon0, st)" by (cases ms) auto
  define mon where "mon = mon0\<lparr>pollCount := pollCount mon0 + 1\<rparr>"
  have lp: "lastPercent mon = lastPercent mon0" by (simp add: mon_def)
  show ?thesis
  proof (cases "ob_time ob - start > MAX_POLL_TIME_MS")
    case True
    with assms have "ms' = timeout_block b start (ob_time ob) (mon, st)"
      by (auto simp: poll_def Let_def ms mon_def)
    then show ?thesis by (simp add: ms lp)
  next
    case False
    show ?thesis
    proof (cases "ob_worker ob")
      case None
      with False assms have "ms' = not_found_block b start (ob_time ob) (mon, st) \<or> ms' = (mon, st)"
        by (auto simp: poll_def Let_def ms mon_def split: if_splits)
      then show ?thesis by (auto simp: ms lp)
    next
      case (Some pw)
      define ms1 where "ms1 = message_block est b (ob_time ob) pw (mon, st)"
      define ms2 where "ms2 = milestone_block b pw ms1"
      from Some False assms have t: "terminal_block pf b start (ob_time ob) pw ms2 = r"
        by (simp add: poll_def Let_def ms mon_def ms1_def ms2_def)
      have 1: "lastPercent (fst ms1) = lastPercent mon0"
        by (simp add: ms1_def lp)
      have 3: "lastPercent (fst ms') = lastPercent (fst ms2)"
        using terminal_block_lastPercent [OF t assms(2)] .
      from milestone_block_cases [of b pw ms1] show ?thesis
        unfolding ms2_def [symmetric] 3 [symmetric] 1 using Some by (auto simp: ms)
    qed
  qed
qed

lemma poll_Continue_progress:
  assumes "poll est pf b start ob ms = Continue ms'"
  shows "progress_of (snd ms') b' =
           (if b' = b \<and> fired ms ms' \<noteq> [] \<and> batch_requests (snd ms) b \<noteq> None
            then Some (lastPercent (fst ms')) else progress_of (snd ms) b')"
proof -
  obtain mon0 st where ms: "ms = (mon0, st)" by (cases ms) auto
  define mon where "mon = mon0\<lparr>pollCount := pollCount mon0 + 1\<rparr>"
  have lp: "lastPercent mon = lastPercent mon0" by (simp add: mon_def)
  have nt: "\<not> ob_time ob - start > MAX_POLL_TIME_MS"
    using assms by (auto simp: poll_def Let_def ms)
  show ?thesis
  proof (cases "ob_worker ob")
    case None
    with nt assms have "ms' = (mon, st)"
      by (auto simp: poll_def Let_def ms mon_def split: if_splits)
    then show ?thesis by (simp add: ms lp fired_def)
  next
    case (Some pw)
    define ms1 where "ms1 = message_block est b (ob_time ob) pw (mon, st)"
    define ms2 where "ms2 = milestone_block b pw ms1"
    from Some nt assms have t: "terminal_block pf b start (ob_time ob) pw ms2 = Continue ms'"
      by (simp add: poll_def Let_def ms mon_def ms1_def ms2_def)
    then have e: "ms' = ms2" by (simp add: terminal_block_Continue)
    have 1: "lastPercent (fst ms1) = lastPercent mon0" "batch_requests (snd ms1) = batch_requests st"
      by (simp_all add: ms1_def lp)
    from milestone_block_cases [of b pw ms1] show ?thesis
      unfolding ms2_def [symmetric] e 1
      by (auto simp: ms fired_def progress_of_def updateBatchProgress_def update_batch_def 1
            split: option.splits)
  qed
qed


lemma percents_Cons:
  "percents (ob # obs) =
     (case ob_worker ob of None \<Rightarrow> percents obs | Some pw \<Rightarrow> percent_of pw # percents obs)"
  by (simp add: percents_def List.map_filter_simps split: option.splits)

lemma fired_cases:
  assumes "poll est pf b start ob ms = r" and "r = Continue ms' \<or> r = Break ms'"
  shows "(fired ms ms' = [] \<and> lastPercent (fst ms') = lastPercent (fst ms))
         \<or> (\<exists>pw. ob_worker ob = Some pw \<and> fired ms ms' = [percent_of pw]
              \<and> lastPercent (fst ms') = percent_of pw \<and> percent_of pw \<noteq> lastPercent (fst ms)
              \<and> percent_of pw mod 10 = 0 \<and> 0 < percent_of pw)"
  using poll_lastPercent [OF assms] by (auto simp: fired_def)

lemma milestones_props:
  "(\<forall>m \<in> set (milestones est pf b start obs ms). 0 < m \<and> m mod 10 = 0)
   \<and> set (milestones est pf b start obs ms) \<subseteq> set (percents obs)
   \<and> distinct_adj (lastPercent (fst ms) # milestones est pf b start obs ms)"
proof (induction obs arbitrary: ms)
  case Nil
  then show ?case by simp
next
  case (Cons ob obs)
  show ?case
  proof (cases "poll est pf b start ob ms")
    case (Break ms')
    from fired_cases [OF Break] Break show ?thesis
      by (auto simp: percents_Cons)
  next
    case (Continue ms')
    note IH = Cons.IH [of ms']
    from fired_cases [OF Continue] Continue IH show ?thesis
      by (auto simp: percents_Cons split: option.splits)
  qed
qed

lemma milestones_sorted:
  "sorted (percents obs) \<Longrightarrow> sorted_wrt (<) (milestones est pf b start obs ms)"
proof (induction obs arbitrary: ms)
  case Nil
  then show ?case by simp
next
  case (Cons ob obs)
  have so: "sorted (percents obs)"
    using Cons.prems by (simp add: percents_Cons split: option.splits)
  show ?case
  proof (cases "poll est pf b start ob ms")
    case (Break ms')
    then show ?thesis by (simp add: fired_def)
  next
    case (Continue ms')
    let ?M = "milestones est pf b start obs ms'"
    have M: "sorted_wrt (<) ?M" using Cons.IH [OF so] .
    from fired_cases [OF Continue]
    consider "fired ms ms' = []"
      | pw where "ob_worker ob = Some pw" "fired ms ms' = [percent_of pw]"
          "lastPercent (fst ms') = percent_of pw"
      by blast
    then show ?thesis
    proof cases
      case 1
      with Continue M show ?thesis by simp
    next
      case 2
      have ge: "\<forall>q \<in> set (percents obs). percent_of pw \<le> q"
        using Cons.prems 2(1) by (simp add: percents_Cons)
      have sub: "set ?M \<subseteq> set (percents obs)" and da: "distinct_adj (percent_of pw # ?M)"
        using milestones_props [of est pf b start obs ms'] 2(3) by simp_all
      have "\<forall>m \<in> set ?M. percent_of pw < m"
      proof (cases ?M)
        case Nil
        then show ?thesis by simp
      next
        case (Cons h T)
        have "percent_of pw \<le> h" using ge sub Cons by auto
        moreover have "percent_of pw \<noteq> h" using da Cons by simp
        ultimately have "percent_of pw < h" by simp
        moreover have "\<forall>t \<in> set T. h < t" using M Cons by simp
        ultimately show ?thesis using Cons by auto
      qed
      with Continue 2(2) M show ?thesis by simp
    qed
  qed
qed

lemma milestone_block_exact:
  "lastPercent (fst (milestone_block b pw ms)) =
     (if percent_of pw \<noteq> lastPercent (fst ms) \<and> percent_of pw mod 10 = 0 \<and> 0 < percent_of pw
      then percent_of pw else lastPercent (fst ms))"
  "snd (milestone_block b pw ms) =
     (if percent_of pw \<noteq> lastPercent (fst ms) \<and> percent_of pw mod 10 = 0 \<and> 0 < percent_of pw
      then updateBatchProgress b (percent_of pw) (snd ms) else snd ms)"
  by (cases ms, simp add: milestone_block_def Let_def)+

lemma poll_fired:
  assumes "poll est pf b start ob ms = r" and "r = Continue ms' \<or> r = Break ms'"
  shows "fired ms ms' = (case due start ob (fst ms) of None \<Rightarrow> [] | Some p \<Rightarrow> [p])"
proof -
  obtain mon0 st where ms: "ms = (mon0, st)" by (cases ms) auto
  define mon where "mon = mon0\<lparr>pollCount := pollCount mon0 + 1\<rparr>"
  have lp: "lastPercent mon = lastPercent mon0" by (simp add: mon_def)
  show ?thesis
  proof (cases "ob_time ob - start > MAX_POLL_TIME_MS")
    case True
    with assms have "ms' = timeout_block b start (ob_time ob) (mon, st)"
      by (auto simp: poll_def Let_def ms mon_def)
    then show ?thesis using True by (simp add: ms lp fired_def due_def)
  next
    case False
    show ?thesis
    proof (cases "ob_worker ob")
      case None
      with False assms have "ms' = not_found_block b start (ob_time ob) (mon, st) \<or> ms' = (mon, st)"
        by (auto simp: poll_def Let_def ms mon_def split: if_splits)
      then show ?thesis using False None by (auto simp: ms lp fired_def due_def)
    next
      case (Some pw)
      define ms1 where "ms1 = message_block est b (ob_time ob) pw (mon, st)"
      define ms2 where "ms2 = milestone_block b pw ms1"
      from Some False assms have t: "terminal_block pf b start (ob_time ob) pw ms2 = r"
        by (simp add: poll_def Let_def ms mon_def ms1_def ms2_def)
      have 1: "lastPercent (fst ms1) = lastPercent mon0"
        by (simp add: ms1_def lp)
      have 3: "lastPercent (fst ms') = lastPercent (fst ms2)"
        using terminal_block_lastPercent [OF t assms(2)] .
      show ?thesis
        using False Some
        by (simp add: fired_def due_def 3 ms2_def milestone_block_exact(1) 1 ms)
    qed
  qed
qed

lemma poll_Continue_due:
  assumes "poll est pf b start ob ms = Continue ms'"
  shows "progress_of (snd ms') b =
           (case due start ob (fst ms) of
              None \<Rightarrow> progress_of (snd ms) b
            | Some p \<Rightarrow> map_option (\<lambda>gr. p) (batch_requests (snd ms) b))"
proof -
  have f: "fired ms ms' = (case due start ob (fst ms) of None \<Rightarrow> [] | Some p \<Rightarrow> [p])"
    using poll_fired [OF assms] by simp
  show ?thesis
  proof (cases "due start ob (fst ms)")
    case None
    with f poll_Continue_progress [OF assms, of b] show ?thesis by simp
  next
    case (Some p)
    with f have "fired ms ms' = [p]" by simp
    then have "lastPercent (fst ms') = p" "fired ms ms' \<noteq> []"
      by (auto simp: fired_def split: if_splits)
    with Some poll_Continue_progress [OF assms, of b] show ?thesis
      by (cases "batch_requests (snd ms) b") (simp_all add: progress_of_def)
  qed
qed

lemma finalizeBatch_progress:
  "progress_of (snd (finalizeBatch b start now s m ms)) b =
     map_option (\<lambda>gr. 100) (batch_requests (snd ms) b)"
  by (cases ms)
     (simp add: finalizeBatch_def logBatchComplete_def log_def Let_def split_def update_batch_def
        progress_of_def split: option.splits)

lemma log_batch_requests:
  "batch_requests (snd (log b i a ph m opts ls)) = batch_requests (snd ls)"
  by (cases ls) (simp add: log_def Let_def)

lemma milestone_block_dom:
  "map_option (\<lambda>gr. c) (batch_requests (snd (milestone_block b pw ms)) b') =
   map_option (\<lambda>gr. c) (batch_requests (snd ms) b')"
  by (cases ms)
     (simp add: milestone_block_def Let_def updateBatchProgress_def update_batch_def
        split: option.splits)

lemma poll_Break_progress:
  assumes "poll est pf b start ob ms = Break ms'"
  shows "progress_of (snd ms') b = map_option (\<lambda>gr. 100) (batch_requests (snd ms) b)"
proof -
  obtain mon0 st where ms: "ms = (mon0, st)" by (cases ms) auto
  define mon where "mon = mon0\<lparr>pollCount := pollCount mon0 + 1\<rparr>"
  show ?thesis
  proof (cases "ob_time ob - start > MAX_POLL_TIME_MS")
    case True
    with assms have "ms' = timeout_block b start (ob_time ob) (mon, st)"
      by (auto simp: poll_def Let_def ms mon_def)
    then show ?thesis
      by (simp add: ms timeout_block_def split_def Let_def finalizeBatch_progress log_batch_requests)
  next
    case False
    show ?thesis
    proof (cases "ob_worker ob")
      case None
      with False assms have "ms' = not_found_block b start (ob_time ob) (mon, st)"
        by (auto simp: poll_def Let_def ms mon_def split: if_splits)
      then show ?thesis
        by (simp add: ms not_found_block_def split_def Let_def finalizeBatch_progress log_batch_requests)
    next
      case (Some pw)
      define ms1 where "ms1 = message_block est b (ob_time ob) pw (mon, st)"
      define ms2 where "ms2 = milestone_block b pw ms1"
      from Some False assms have t: "terminal_block pf b start (ob_time ob) pw ms2 = Break ms'"
        by (simp add: poll_def Let_def ms mon_def ms1_def ms2_def)
      have d: "map_option (\<lambda>gr. 100::int) (batch_requests (snd ms2) b) =
               map_option (\<lambda>gr. 100) (batch_requests st b)"
        by (simp add: ms2_def milestone_block_dom ms1_def)
      from t have "progress_of (snd ms') b = map_option (\<lambda>gr. 100) (batch_requests (snd ms2) b)"
        by (cases ms2)
           (auto simp: terminal_block_def Let_def split_def finalizeBatch_progress log_batch_requests
              split: if_splits)
      with d show ?thesis by (simp add: ms)
    qed
  qed
qed

lemma progress_trace_sorted:
  "sorted (percents obs) \<Longrightarrow> progress_of (snd ms) b = Some p0 \<Longrightarrow> p0 \<le> 100 \<Longrightarrow>
   \<forall>p \<in> set (percents obs). p0 \<le> p \<and> p \<le> 100 \<Longrightarrow>
     \<exists>ps. progress_trace est pf b start obs ms = map Some ps \<and> sorted (p0 # ps)"
proof (induction obs arbitrary: ms p0)
  case Nil
  then show ?case by simp
next
  case (Cons ob obs)
  have ex: "batch_requests (snd ms) b \<noteq> None"
    using Cons.prems(2) by (auto simp: progress_of_def)
  have so: "sorted (percents obs)"
    using Cons.prems(1) by (simp add: percents_Cons split: option.splits)
  show ?case
  proof (cases "poll est pf b start ob ms")
    case (Break ms')
    from poll_Break_progress [OF Break] ex have "progress_of (snd ms') b = Some 100"
      by auto
    with Break Cons.prems(3) show ?thesis
      by (intro exI [of _ "[100]"]) simp
  next
    case (Continue ms')
    show ?thesis
    proof (cases "due start ob (fst ms)")
      case None
      with poll_Continue_due [OF Continue] Cons.prems(2)
      have p: "progress_of (snd ms') b = Some p0" by simp
      have "\<forall>p \<in> set (percents obs). p0 \<le> p \<and> p \<le> 100"
        using Cons.prems(4) by (auto simp: percents_Cons split: option.splits)
      from Cons.IH [OF so p Cons.prems(3) this] obtain ps where
        "progress_trace est pf b start obs ms' = map Some ps" "sorted (p0 # ps)"
        by blast
      with Continue p show ?thesis
        by (intro exI [of _ "p0 # ps"]) simp
    next
      case (Some p)
      then obtain pw where w: "ob_worker ob = Some pw" "p = percent_of pw"
        by (auto simp: due_def split: if_splits option.splits)
      from Some poll_Continue_due [OF Continue] ex
      have p: "progress_of (snd ms') b = Some p" by auto
      have b: "p0 \<le> p" "p \<le> 100"
        using Cons.prems(4) w by (simp_all add: percents_Cons)
      have "\<forall>q \<in> set (percents obs). p \<le> q \<and> q \<le> 100"
        using Cons.prems(1,4) w by (simp add: percents_Cons)
      from Cons.IH [OF so p b(2) this] obtain ps where
        "progress_trace est pf b start obs ms' = map Some ps" "sorted (p # ps)"
        by blast
      with Continue p b(1) show ?thesis
        by (intro exI [of _ "p # ps"]) auto
    qed
  qed
qed

text \<open>
  C4, as the claim states it, fails: the milestone test is \<open>percent !== lastPercent\<close>, not
  \<open>percent > lastPercent\<close>. When the worker reports 50, then 30, then 50, the monitor
  persists 50, then 30, then 50 as the overall progress of the running batch.
\<close>

theorem overall_progress_counterexample:
  "milestones example_estimator example_platform ''b1'' 10 (reads [50, 30, 50])
     (new_monitor, started_store) = [50, 30, 50]
   \<and> progress_trace example_estimator example_platform ''b1'' 10 (reads [50, 30, 50])
     (new_monitor, started_store) = [Some 50, Some 30, Some 50]
   \<and> state_of started_store ''b1'' = Some B_in_progress"
  by code_simp

text \<open>
  C4 (amended). A pass fires a milestone (assigns \<open>lastPercent\<close>) exactly when one is due:
  when it reads the worker within the maximum run time and the percentage read is a
  positive multiple of ten other than \<open>lastPercent\<close>. A pass that does not end the loop
  then sets the overall progress of the batch, if its record exists, to that percentage,
  and leaves the overall progress as it was when no milestone is due; a pass that ends
  the loop leaves the overall progress at 100. So every milestone fired is a positive
  multiple of ten and one of the percentages read, and differs from the milestone fired
  before it. When the percentages read do not decrease, the milestones
  fired are strictly increasing, each fired once; and when moreover the overall
  progress the batch starts the run with is no more than any of them, and they are no
  more than 100, the overall progress after each pass does not decrease.
\<close>

theorem overall_progress_milestones:
  "(poll est pf b start ob ms = Continue ms' \<longrightarrow>
      fired ms ms' = (case due start ob (fst ms) of None \<Rightarrow> [] | Some p \<Rightarrow> [p])
      \<and> progress_of (snd ms') b =
          (case due start ob (fst ms) of
             None \<Rightarrow> progress_of (snd ms) b
           | Some p \<Rightarrow> map_option (\<lambda>gr. p) (batch_requests (snd ms) b)))
   \<and> (poll est pf b start ob ms = Break ms' \<longrightarrow>
      fired ms ms' = (case due start ob (fst ms) of None \<Rightarrow> [] | Some p \<Rightarrow> [p])
      \<and> progress_of (snd ms') b = map_option (\<lambda>gr. 100) (batch_requests (snd ms) b))
   \<and> (\<forall>m \<in> set (milestones est pf b start obs ms). 0 < m \<and> m mod 10 = 0)
   \<and> set (milestones est pf b start obs ms) \<subseteq> set (percents obs)
   \<and> distinct_adj (lastPercent (fst ms) # milestones est pf b start obs ms)
   \<and> (sorted (percents obs) \<longrightarrow>
        sorted_wrt (<) (milestones est pf b start obs ms)
        \<and> distinct (milestones est pf b start obs ms))
   \<and> (sorted (percents obs) \<and> progress_of (snd ms) b = Some p0 \<and> p0 \<le> 100
        \<and> (\<forall>p \<in> set (percents obs). p0 \<le> p \<and> p \<le> 100) \<longrightarrow>
        (\<exists>ps. progress_trace est pf b start obs ms = map Some ps \<and> sorted (p0 # ps)))"
proof -
  have 1: "poll est pf b start ob ms = Continue ms' \<longrightarrow>
      fired ms ms' = (case due start ob (fst ms) of None \<Rightarrow> [] | Some p \<Rightarrow> [p])
      \<and> progress_of (snd ms') b =
          (case due start ob (fst ms) of
             None \<Rightarrow> progress_of (snd ms) b
           | Some p \<Rightarrow> map_option (\<lambda>gr. p) (batch_requests (snd ms) b))"
    using poll_fired [of est pf b start ob ms "Continue ms'" ms'] poll_Continue_due [of est pf b start ob ms ms']
    by blast
  have 2: "poll est pf b start ob ms = Break ms' \<longrightarrow>
      fired ms ms' = (case due start ob (fst ms) of None \<Rightarrow> [] | Some p \<Rightarrow> [p])
      \<and> progress_of (snd ms') b = map_option (\<lambda>gr. 100) (batch_requests (snd ms) b)"
    using poll_fired [of est pf b start ob ms "Break ms'" ms'] poll_Break_progress [of est pf b start ob ms ms']
    by blast
  have 3: "sorted (percents obs) \<longrightarrow> sorted_wrt (<) (milestones est pf b start obs ms)
        \<and> distinct (milestones est pf b start obs ms)"
    using milestones_sorted [of obs est pf b start ms] strict_sorted_iff by blast
  have 4: "sorted (percents obs) \<and> progress_of (snd ms) b = Some p0 \<and> p0 \<le> 100
        \<and> (\<forall>p \<in> set (percents obs). p0 \<le> p \<and> p \<le> 100) \<longrightarrow>
        (\<exists>ps. progress_trace est pf b start obs ms = map Some ps \<and> sorted (p0 # ps))"
    using progress_trace_sorted [of obs ms b p0 est pf start] by blast
  from 1 2 3 4 milestones_props [of est pf b start obs ms] show ?thesis
    by (intro conjI) blast+
qed

theorem overall_progress_milestones_witness:
  "sorted (percents (reads [30, 50, 50, 55, 60]))
   \<and> progress_of started_store ''b1'' = Some 0
   \<and> list_all (\<lambda>p. 0 \<le> p \<and> p \<le> 100) (percents (reads [30, 50, 50, 55, 60]))
   \<and> milestones example_estimator example_platform ''b1'' 10 (reads [30, 50, 50, 55, 60])
       (new_monitor, started_store) = [30, 50, 60]
   \<and> sorted_wrt (<) (milestones example_estimator example_platform ''b1'' 10 (reads [30, 50, 50, 55, 60])
       (new_monitor, started_store))
   \<and> distinct (milestones example_estimator example_platform ''b1'' 10 (reads [30, 50, 50, 55, 60])
       (new_monitor, started_store))
   \<and> progress_trace example_estimator example_platform ''b1'' 10 (reads [30, 50, 50, 55, 60])
       (new_monitor, started_store) = [Some 30, Some 50, Some 50, Some 50, Some 60]
   \<and> (\<exists>ps. progress_trace example_estimator example_platform ''b1'' 10 (reads [30, 50, 50, 55, 60])
           (new_monitor, started_store) = map Some ps \<and> sorted (0 # ps))"
proof -
  have h: "sorted (percents (reads [30, 50, 50, 55, 60]))"
    by code_simp
  have p: "progress_of (snd (new_monitor, started_store)) ''b1'' = Some 0"
    by code_simp
  have r: "list_all (\<lambda>p. 0 \<le> p \<and> p \<le> 100) (percents (reads [30, 50, 50, 55, 60]))"
    by code_simp
  then have r': "\<forall>p \<in> set (percents (reads [30, 50, 50, 55, 60])). 0 \<le> p \<and> p \<le> 100"
    by (simp add: list_all_iff)
  have m: "milestones example_estimator example_platform ''b1'' 10 (reads [30, 50, 50, 55, 60])
       (new_monitor, started_store) = [30, 50, 60]"
    by code_simp
  have t: "progress_trace example_estimator example_platform ''b1'' 10 (reads [30, 50, 50, 55, 60])
       (new_monitor, started_store) = [Some 30, Some 50, Some 50, Some 50, Some 60]"
    by code_simp
  from overall_progress_milestones [where est = example_estimator and pf = example_platform
      and b = "''b1''" and start = 10 and obs = "reads [30, 50, 50, 55, 60]"
      and ms = "(new_monitor, started_store)" and ?p0.0 = 0] h p r'
  have "sorted_wrt (<) (milestones example_estimator example_platform ''b1'' 10 (reads [30, 50, 50, 55, 60])
          (new_monitor, started_store))
        \<and> distinct (milestones example_estimator example_platform ''b1'' 10 (reads [30, 50, 50, 55, 60])
          (new_monitor, started_store))
        \<and> (\<exists>ps. progress_trace example_estimator example_platform ''b1'' 10 (reads [30, 50, 50, 55, 60])
           (new_monitor, started_store) = map Some ps \<and> sorted (0 # ps))"
    by simp
  with h p r m t show ?thesis by simp
qed


section \<open>The poll timeout\<close>









section \<open>The ground-truth sync\<close>

lemma getValue_eq_iff: "getValue s = getValue t \<longleftrightarrow> s = t"
  by (auto simp: getValue_def)

lemma sync_item_row:
  "bi_batch_request it = b \<Longrightarrow>
     fst (syncFinalItemStates_item pf now b it acc) = synced_row pf now b it"
  by (cases acc)
     (auto simp: synced_row_def syncFinalItemStates_item_def Let_def split: option.splits)

lemma sync_loop_rows:
  "fst (syncFinalItemStates_loop pf now b rows acc) = map (synced_row pf now b) rows"
proof (induction rows arbitrary: acc)
  case Nil
  then show ?case by simp
next
  case (Cons it rows)
  show ?case
  proof (cases "bi_batch_request it = b")
    case True
    with Cons.IH sync_item_row [OF True, of pf now acc] show ?thesis
      by (simp add: split_def)
  next
    case False
    with Cons.IH show ?thesis by (simp add: split_def synced_row_def)
  qed
qed

lemma sync_logged_mono:
  "sync_logged pf b it es \<Longrightarrow> sync_logged pf b it (es @ fs)"
  by (auto simp: sync_logged_def split: option.splits if_splits)

lemma sync_item_entries:
  assumes "syncFinalItemStates_item pf now b it (ls, f) = (it', ls', f')"
  shows "\<exists>es. activity_log (snd ls') = activity_log (snd ls) @ es
      \<and> (bi_sys_id it \<noteq> [] \<longrightarrow> sync_logged pf b it es)"
  using assms
  by (cases ls)
     (auto simp: syncFinalItemStates_item_def Let_def getValue_eq_iff logAppInstallComplete_def
        logAppInstallFailed_def log_def is_success_entry_def is_failure_entry_def truthy_def
        sync_logged_def
      split: option.splits if_splits)

lemma sync_loop_entries:
  "syncFinalItemStates_loop pf now b rows (ls, f) = (rows', ls', f') \<Longrightarrow>
     \<exists>es. activity_log (snd ls') = activity_log (snd ls) @ es
        \<and> (\<forall>it \<in> set rows. bi_batch_request it = b \<and> bi_sys_id it \<noteq> [] \<longrightarrow> sync_logged pf b it es)"
proof (induction rows arbitrary: ls f rows' ls' f')
  case Nil
  then show ?case by simp
next
  case (Cons it rows)
  show ?case
  proof (cases "bi_batch_request it = b")
    case True
    obtain it1 ls1 f1 where i: "syncFinalItemStates_item pf now b it (ls, f) = (it1, ls1, f1)"
      by (cases "syncFinalItemStates_item pf now b it (ls, f)") auto
    obtain rows2 ls2 f2 where r: "syncFinalItemStates_loop pf now b rows (ls1, f1) = (rows2, ls2, f2)"
      by (cases "syncFinalItemStates_loop pf now b rows (ls1, f1)") auto
    from Cons.prems True i r have eq: "ls' = ls2" by simp
    from sync_item_entries [OF i] obtain es1 where
      1: "activity_log (snd ls1) = activity_log (snd ls) @ es1"
         "bi_sys_id it \<noteq> [] \<longrightarrow> sync_logged pf b it es1"
      by blast
    from Cons.IH [OF r] obtain es2 where
      2: "activity_log (snd ls2) = activity_log (snd ls1) @ es2"
         "\<forall>it \<in> set rows. bi_batch_request it = b \<and> bi_sys_id it \<noteq> [] \<longrightarrow> sync_logged pf b it es2"
      by blast
    have a: "activity_log (snd ls') = activity_log (snd ls) @ (es1 @ es2)"
      using 1(1) 2(1) eq by simp
    have "\<forall>x \<in> set rows. bi_batch_request x = b \<and> bi_sys_id x \<noteq> [] \<longrightarrow> sync_logged pf b x (es1 @ es2)"
      using 2(2) by (auto simp: sync_logged_def split: option.splits if_splits)
    moreover have "bi_sys_id it \<noteq> [] \<longrightarrow> sync_logged pf b it (es1 @ es2)"
      using 1(2) sync_logged_mono by blast
    ultimately show ?thesis using a by (intro exI [of _ "es1 @ es2"]) simp
  next
    case False
    obtain rows2 ls2 f2 where r: "syncFinalItemStates_loop pf now b rows (ls, f) = (rows2, ls2, f2)"
      by (cases "syncFinalItemStates_loop pf now b rows (ls, f)") auto
    from Cons.prems False r have eq: "ls' = ls2" by simp
    from Cons.IH [OF r] False show ?thesis unfolding eq by simp
  qed
qed

lemma syncFinalItemStates_rows:
  "batch_items (snd (syncFinalItemStates pf now b (mon, st))) = map (synced_row pf now b) (batch_items st)"
  using sync_loop_rows [of pf now b "batch_items st" "((mon_logger mon, st), failedApps mon)"]
  by (simp add: syncFinalItemStates_def split_def Let_def)

lemma syncFinalItemStates_entries:
  assumes "it \<in> set (batch_items st)" and "bi_batch_request it = b" and "bi_sys_id it \<noteq> []"
  shows "sync_logged pf b it (written_since st (snd (syncFinalItemStates pf now b (mon, st))))"
proof -
  obtain rows ls1 f where
    r: "syncFinalItemStates_loop pf now b (batch_items st) ((mon_logger mon, st), failedApps mon)
          = (rows, ls1, f)"
    by (cases "syncFinalItemStates_loop pf now b (batch_items st) ((mon_logger mon, st), failedApps mon)") auto
  from sync_loop_entries [OF r] assms obtain es where
    e: "activity_log (snd ls1) = activity_log st @ es" "sync_logged pf b it es"
    by auto
  have "activity_log (snd (syncFinalItemStates pf now b (mon, st))) = activity_log (snd ls1)"
    using r by (simp add: syncFinalItemStates_def split_def)
  with e show ?thesis by (simp add: written_since_def)
qed

lemma estimated_refl: "estimated it it"
  by (simp add: estimated_def)

lemma estimated_trans: "estimated a b \<Longrightarrow> estimated b c \<Longrightarrow> estimated a c"
  by (auto simp: estimated_def split: if_splits)

lemma estimated_rows_refl: "estimated_rows rows rows"
  by (simp add: estimated_rows_def estimated_refl)

lemma estimated_rows_trans:
  "estimated_rows a b \<Longrightarrow> estimated_rows b c \<Longrightarrow> estimated_rows a c"
  by (auto simp: estimated_rows_def intro: estimated_trans)

lemma parse_loop_estimated:
  "\<forall>(pos, itemGr) \<in> set sel. pos < length rows0 \<and> itemGr = rows0 ! pos \<and> bi_state itemGr = I_installing \<Longrightarrow>
   estimated_rows rows0 rows \<Longrightarrow>
   estimated_rows rows0 (snd (parseAndUpdateItems_loop est now m p tot ix sel idx (c, rows)))"
proof (induction sel arbitrary: idx c rows)
  case Nil
  then show ?case by simp
next
  case (Cons x sel)
  obtain pos itemGr where x: "x = (pos, itemGr)" by (cases x) auto
  have h: "pos < length rows0" "itemGr = rows0 ! pos" "bi_state itemGr = I_installing"
    using Cons.prems(1) x by auto
  have rest: "\<forall>(pos, itemGr) \<in> set sel. pos < length rows0 \<and> itemGr = rows0 ! pos \<and> bi_state itemGr = I_installing"
    using Cons.prems(1) by simp
  have up: "estimated (rows0 ! pos) r \<Longrightarrow> estimated_rows rows0 (rows[pos := r])" for r
    using Cons.prems(2) h(1) by (auto simp: estimated_rows_def nth_list_update)
  have 1: "estimated_rows rows0 (rows[pos := itemGr\<lparr>bi_state := I_completed,
                              bi_progress_percent := 100,
                              bi_end_time := Some now,
                              bi_status_message := ''Installed successfully'',
                              bi_duration_seconds := duration_seconds (bi_start_time itemGr) now\<rparr>])"
    using h by (intro up) (simp add: estimated_def)
  have 2: "estimated_rows rows0 (rows[pos := itemGr\<lparr>bi_progress_percent :=
                                max 0 (min 100 (est_itemPercent est p ix tot)),
                              bi_status_message := m\<rparr>])"
    using h by (intro up) (simp add: estimated_def)
  show ?case
    unfolding x using Cons.IH [OF rest 1] Cons.IH [OF rest 2] Cons.IH [OF rest Cons.prems(2)]
    by simp
qed

lemma parseAndUpdateItems_estimated:
  "estimated_rows (batch_items (snd ms)) (batch_items (snd (parseAndUpdateItems est now b m p ms)))"
proof -
  obtain mon st where ms: "ms = (mon, st)" by (cases ms) auto
  let ?rows = "batch_items st"
  let ?sel = "sort_key (\<lambda>(pos, it). bi_install_order it)
                (filter (\<lambda>(pos, it). is_installing_of b it) (zip [0..<length ?rows] ?rows))"
  have "\<forall>(pos, itemGr) \<in> set ?sel. pos < length ?rows \<and> itemGr = ?rows ! pos \<and> bi_state itemGr = I_installing"
    by (auto simp: in_set_zip is_installing_of_def)
  from parse_loop_estimated [OF this estimated_rows_refl]
  show ?thesis
    by (simp add: ms parseAndUpdateItems_def Let_def split_def estimated_rows_refl)
qed

lemma log_batch_items:
  "batch_items (snd (log b i a ph m opts ls)) = batch_items (snd ls)"
  by (cases ls) (simp add: log_def Let_def)

lemma message_block_estimated:
  "estimated_rows (batch_items (snd ms)) (batch_items (snd (message_block est b now pw ms)))"
proof -
  obtain mon st where ms: "ms = (mon, st)" by (cases ms) auto
  show ?thesis
  proof (cases "pw_message pw = lastMessage mon")
    case True
    then show ?thesis by (simp add: ms message_block_def Let_def estimated_rows_refl)
  next
    case False
    define ls where "ls = log b None (classify_message (pw_message pw)) Ph_installation (pw_message pw)
                    \<lparr>lo_details = Some (Details_text (pw_output_summary pw)),
                     lo_applicationName = None,
                     lo_progressPercent = Some (percent_of pw)\<rparr>
                    (mon_logger mon, st)"
    have e: "message_block est b now pw (mon, st) =
        parseAndUpdateItems est now b (pw_message pw) (percent_of pw)
          (mon\<lparr>mon_logger := fst ls, lastMessage := pw_message pw\<rparr>, snd ls)"
      using False by (simp add: message_block_def Let_def split_def ls_def)
    have "batch_items (snd ls) = batch_items st"
      by (simp add: ls_def log_batch_items)
    with parseAndUpdateItems_estimated [of "(mon\<lparr>mon_logger := fst ls, lastMessage := pw_message pw\<rparr>, snd ls)"
        est now b "pw_message pw" "percent_of pw"]
    show ?thesis unfolding ms e by simp
  qed
qed

lemma message_block_pollCount:
  "batch_items (snd (message_block est b now pw (mon\<lparr>pollCount := k\<rparr>, st))) =
   batch_items (snd (message_block est b now pw (mon, st)))"
  by (simp add: message_block_def parseAndUpdateItems_def Let_def split_def)

lemma milestone_block_items:
  "batch_items (snd (milestone_block b pw ms)) = batch_items (snd ms)"
  by (cases ms)
     (simp add: milestone_block_def Let_def updateBatchProgress_def update_batch_def
        split: option.splits)

lemma poll_Continue_estimated:
  assumes "poll est pf b start ob ms = Continue ms'"
  shows "estimated_rows (batch_items (snd ms)) (batch_items (snd ms'))"
proof -
  obtain mon0 st where ms: "ms = (mon0, st)" by (cases ms) auto
  define mon where "mon = mon0\<lparr>pollCount := pollCount mon0 + 1\<rparr>"
  have nt: "\<not> ob_time ob - start > MAX_POLL_TIME_MS"
    using assms by (auto simp: poll_def Let_def ms)
  show ?thesis
  proof (cases "ob_worker ob")
    case None
    with nt assms have "ms' = (mon, st)"
      by (auto simp: poll_def Let_def ms mon_def split: if_splits)
    then show ?thesis by (simp add: ms estimated_rows_refl)
  next
    case (Some pw)
    define ms1 where "ms1 = message_block est b (ob_time ob) pw (mon, st)"
    define ms2 where "ms2 = milestone_block b pw ms1"
    from Some nt assms have t: "terminal_block pf b start (ob_time ob) pw ms2 = Continue ms'"
      by (simp add: poll_def Let_def ms mon_def ms1_def ms2_def)
    then have e: "ms' = ms2" by (simp add: terminal_block_Continue)
    have "batch_items (snd ms2) = batch_items (snd ms1)"
      by (simp add: ms2_def milestone_block_items)
    with message_block_estimated [of "(mon, st)" est b "ob_time ob" pw]
    show ?thesis by (simp add: e ms ms1_def)
  qed
qed

lemma passes_estimated:
  "passes est pf b start obs ms = Some ms' \<Longrightarrow>
     estimated_rows (batch_items (snd ms)) (batch_items (snd ms'))"
proof (induction obs arbitrary: ms)
  case Nil
  then show ?case by (simp add: estimated_rows_refl)
next
  case (Cons ob obs)
  then obtain ms1 where 1: "poll est pf b start ob ms = Continue ms1"
      "passes est pf b start obs ms1 = Some ms'"
    by (auto split: step.splits)
  from poll_Continue_estimated [OF 1(1)] Cons.IH [OF 1(2)] show ?case
    by (rule estimated_rows_trans)
qed

lemma passes_poll_loop:
  "passes est pf b start pre ms = Some ms1 \<Longrightarrow>
     poll_loop est pf b start (pre @ obs) ms = poll_loop est pf b start obs ms1"
proof (induction pre arbitrary: ms)
  case Nil
  then show ?case by simp
next
  case (Cons ob pre)
  then show ?case by (auto split: step.splits)
qed

lemma execute_monitor_started:
  "execute est pf b w start obs st = poll_loop est pf b start obs (monitor_started b w st)"
  by (simp add: execute_def monitor_started_def Let_def split_def)

lemma monitor_started_items:
  "batch_items (snd (monitor_started b w st)) = batch_items st"
  by (simp add: monitor_started_def Let_def split_def log_batch_items)

lemma log_entries:
  "\<exists>e. activity_log (snd (log b i a ph m opts ls)) = activity_log (snd ls) @ [e]
       \<and> le_batch_item e = (if truthy i then i else None)"
  by (cases ls) (simp add: log_def Let_def)

lemma message_block_entries:
  "\<exists>es. activity_log (snd (message_block est b now pw ms)) = activity_log (snd ms) @ es
         \<and> (\<forall>e \<in> set es. le_batch_item e = None)"
  by (cases ms) (simp add: message_block_def Let_def split_def log_def truthy_def)

lemma milestone_block_log:
  "activity_log (snd (milestone_block b pw ms)) = activity_log (snd ms)"
  by (cases ms)
     (simp add: milestone_block_def Let_def updateBatchProgress_def update_batch_def
        split: option.splits)

lemma finalizeBatch_entries:
  "\<exists>es. activity_log (snd (finalizeBatch b start now s m ms)) = activity_log (snd ms) @ es
         \<and> (\<forall>e \<in> set es. le_batch_item e = None)"
  by (cases ms)
     (simp add: finalizeBatch_def logBatchComplete_def log_def Let_def split_def update_batch_def
        truthy_def split: option.splits)

lemma sync_item_touched:
  assumes "syncFinalItemStates_item pf now b it (ls, f) = (it', ls', f')"
  shows "\<exists>es. activity_log (snd ls') = activity_log (snd ls) @ es
      \<and> (bi_state it' = bi_state it \<longrightarrow> es = [])
      \<and> (\<forall>e \<in> set es. le_batch_item e = None \<or> le_batch_item e = Some (bi_sys_id it))"
  using assms
  by (cases ls)
     (auto simp: syncFinalItemStates_item_def Let_def logAppInstallComplete_def
        logAppInstallFailed_def log_def truthy_def
      split: option.splits if_splits)

lemma sync_loop_touched:
  "syncFinalItemStates_loop pf now b rows (ls, f) = (rows', ls', f') \<Longrightarrow>
     \<exists>es. activity_log (snd ls') = activity_log (snd ls) @ es
        \<and> (\<forall>e \<in> set es. le_batch_item e = None
              \<or> (\<exists>it \<in> set rows. le_batch_item e = Some (bi_sys_id it) \<and> synced_row pf now b it \<noteq> it))"
proof (induction rows arbitrary: ls f rows' ls' f')
  case Nil
  then show ?case by simp
next
  case (Cons it rows)
  show ?case
  proof (cases "bi_batch_request it = b")
    case True
    obtain it1 ls1 f1 where i: "syncFinalItemStates_item pf now b it (ls, f) = (it1, ls1, f1)"
      by (cases "syncFinalItemStates_item pf now b it (ls, f)") auto
    obtain rows2 ls2 f2 where r: "syncFinalItemStates_loop pf now b rows (ls1, f1) = (rows2, ls2, f2)"
      by (cases "syncFinalItemStates_loop pf now b rows (ls1, f1)") auto
    from Cons.prems True i r have eq: "ls' = ls2" by simp
    have row: "it1 = synced_row pf now b it"
      using sync_item_row [OF True, of pf now "(ls, f)"] i by simp
    from sync_item_touched [OF i] obtain es1 where
      1: "activity_log (snd ls1) = activity_log (snd ls) @ es1" "bi_state it1 = bi_state it \<longrightarrow> es1 = []"
         "\<forall>e \<in> set es1. le_batch_item e = None \<or> le_batch_item e = Some (bi_sys_id it)"
      by blast
    from Cons.IH [OF r] obtain es2 where
      2: "activity_log (snd ls2) = activity_log (snd ls1) @ es2"
         "\<forall>e \<in> set es2. le_batch_item e = None
              \<or> (\<exists>it \<in> set rows. le_batch_item e = Some (bi_sys_id it) \<and> synced_row pf now b it \<noteq> it)"
      by blast
    have a: "activity_log (snd ls') = activity_log (snd ls) @ (es1 @ es2)"
      using 1(1) 2(1) eq by simp
    have "\<forall>e \<in> set es1. le_batch_item e = None
              \<or> (\<exists>x \<in> set (it # rows). le_batch_item e = Some (bi_sys_id x) \<and> synced_row pf now b x \<noteq> x)"
      using 1(2,3) row by auto
    moreover have "\<forall>e \<in> set es2. le_batch_item e = None
              \<or> (\<exists>x \<in> set (it # rows). le_batch_item e = Some (bi_sys_id x) \<and> synced_row pf now b x \<noteq> x)"
      using 2(2) by auto
    ultimately show ?thesis using a by (intro exI [of _ "es1 @ es2"]) auto
  next
    case False
    obtain rows2 ls2 f2 where r: "syncFinalItemStates_loop pf now b rows (ls, f) = (rows2, ls2, f2)"
      by (cases "syncFinalItemStates_loop pf now b rows (ls, f)") auto
    from Cons.prems False r have eq: "ls' = ls2" by simp
    from Cons.IH [OF r] show ?thesis unfolding eq by auto
  qed
qed

lemma syncFinalItemStates_touched:
  "\<exists>es. activity_log (snd (syncFinalItemStates pf now b (mon, st))) = activity_log st @ es
        \<and> (\<forall>e \<in> set es. le_batch_item e = None
              \<or> (\<exists>it \<in> set (batch_items st). le_batch_item e = Some (bi_sys_id it)
                    \<and> synced_row pf now b it \<noteq> it))"
proof -
  obtain rows ls1 f where
    r: "syncFinalItemStates_loop pf now b (batch_items st) ((mon_logger mon, st), failedApps mon)
          = (rows, ls1, f)"
    by (cases "syncFinalItemStates_loop pf now b (batch_items st) ((mon_logger mon, st), failedApps mon)") auto
  have "activity_log (snd (syncFinalItemStates pf now b (mon, st))) = activity_log (snd ls1)"
    using r by (simp add: syncFinalItemStates_def split_def)
  with sync_loop_touched [OF r] show ?thesis by simp
qed


lemma terminal_pass:
  assumes "ob_worker ob = Some pw" and "is_terminal (pw_state pw)"
    and "ob_time ob - start \<le> MAX_POLL_TIME_MS"
  shows "\<exists>ms' mon st A S C. poll est pf b start ob ms = Break ms'
      \<and> batch_items st = batch_items (snd (message_block est b (ob_time ob) pw ms))
      \<and> batch_items (snd ms') = map (synced_row pf (ob_time ob) b) (batch_items st)
      \<and> written_since (snd ms) (snd ms') = A @ S @ C
      \<and> S = written_since st (snd (syncFinalItemStates pf (ob_time ob) b (mon, st)))
      \<and> (\<forall>e \<in> set A. le_batch_item e = None) \<and> (\<forall>e \<in> set C. le_batch_item e = None)"
proof -
  obtain mon0 st0 where ms: "ms = (mon0, st0)" by (cases ms) auto
  define now where "now = ob_time ob"
  define mon1 where "mon1 = mon0\<lparr>pollCount := pollCount mon0 + 1\<rparr>"
  define ms1 where "ms1 = message_block est b now pw (mon1, st0)"
  define ms2 where "ms2 = milestone_block b pw ms1"
  define ls where "ls = (if pw_error_message pw \<noteq> [] then
                     log b None A_error Ph_post_install
                       (''Installation error: '' @ pw_error_message pw) no_options
                       (mon_logger (fst ms2), snd ms2)
                   else (mon_logger (fst ms2), snd ms2))"
  define mon where "mon = (fst ms2)\<lparr>mon_logger := fst ls\<rparr>"
  define st where "st = snd ls"
  define ms4 where "ms4 = syncFinalItemStates pf now b (mon, st)"
  define ms' where "ms' = finalizeBatch b start now
                        (if pw_state pw = ''complete'' then B_completed else B_failed)
                        (if pw_output_summary pw \<noteq> [] then pw_output_summary pw else pw_message pw) ms4"
  have p: "poll est pf b start ob ms = Break ms'"
    using assms
    by (simp add: poll_def Let_def ms terminal_block_def split_def ms'_def ms4_def mon_def st_def
        ls_def ms2_def ms1_def mon1_def now_def)
  have i1: "batch_items (snd ms1) = batch_items (snd (message_block est b now pw ms))"
    by (simp add: ms1_def mon1_def ms message_block_pollCount)
  have i3: "batch_items st = batch_items (snd ms2)"
    by (simp add: st_def ls_def log_batch_items)
  have i: "batch_items st = batch_items (snd (message_block est b now pw ms))"
    using i1 i3 by (simp add: ms2_def milestone_block_items)
  have i4: "batch_items (snd ms') = map (synced_row pf now b) (batch_items st)"
    by (simp add: ms'_def ms4_def syncFinalItemStates_rows)
  obtain A1 where a1: "activity_log (snd ms1) = activity_log st0 @ A1" "\<forall>e \<in> set A1. le_batch_item e = None"
    using message_block_entries [of est b now pw "(mon1, st0)"] by (auto simp: ms1_def)
  have a2: "activity_log (snd ms2) = activity_log (snd ms1)"
    by (simp add: ms2_def milestone_block_log)
  obtain A2 where a3: "activity_log st = activity_log (snd ms2) @ A2" "\<forall>e \<in> set A2. le_batch_item e = None"
  proof (cases "pw_error_message pw \<noteq> []")
    case True
    from log_entries [of b None A_error Ph_post_install "''Installation error: '' @ pw_error_message pw"
        no_options "(mon_logger (fst ms2), snd ms2)"] True
    obtain e where "activity_log st = activity_log (snd ms2) @ [e]" "le_batch_item e = None"
      by (auto simp: st_def ls_def truthy_def)
    then show ?thesis by (intro that [of "[e]"]) simp_all
  next
    case False
    then have "activity_log st = activity_log (snd ms2) @ []"
      by (simp add: st_def ls_def)
    then show ?thesis by (intro that [of "[]"]) simp_all
  qed
  obtain S where s: "activity_log (snd ms4) = activity_log st @ S"
    using syncFinalItemStates_touched [of pf now b mon st] by (auto simp: ms4_def)
  then have S: "S = written_since st (snd (syncFinalItemStates pf now b (mon, st)))"
    by (simp add: written_since_def ms4_def)
  obtain C where c: "activity_log (snd ms') = activity_log (snd ms4) @ C" "\<forall>e \<in> set C. le_batch_item e = None"
    using finalizeBatch_entries [of b start now _ _ ms4] unfolding ms'_def by blast
  have "activity_log (snd ms') = activity_log st0 @ (A1 @ A2) @ S @ C"
    using a1(1) a2 a3(1) s c(1) by simp
  then have w: "written_since (snd ms) (snd ms') = (A1 @ A2) @ S @ C"
    by (simp add: written_since_def ms)
  have n: "\<forall>e \<in> set (A1 @ A2). le_batch_item e = None"
    using a1(2) a3(2) by auto
  from p i i4 w S n c(2) show ?thesis
    unfolding now_def by blast
qed

lemma synced_row_match:
  assumes "gr_get (pf_store_apps pf) (bi_application it) = Some appGr" and "bi_batch_request it = b"
  shows "sa_version appGr = bi_to_version it \<longrightarrow> bi_state (synced_row pf now b it) = I_completed
      \<and> (bi_state it \<noteq> I_completed \<longrightarrow> bi_progress_percent (synced_row pf now b it) = 100)
      \<and> (bi_state it = I_completed \<longrightarrow> synced_row pf now b it = it)"
    and "sa_version appGr \<noteq> bi_to_version it \<and> bi_state it = I_installing \<longrightarrow>
      bi_state (synced_row pf now b it) = I_failed
      \<and> bi_error_message (synced_row pf now b it) = mismatch_message (bi_to_version it) (sa_version appGr)"
  using assms
  by (simp_all add: synced_row_def syncFinalItemStates_item_def Let_def getValue_eq_iff
        mismatch_message_def)

text \<open>
  C1, as the claim states it, fails for an item the estimate has already marked
  \<open>completed\<close>: the sync leaves such an item alone and writes no success entry for it. In
  the run below the installer has brought \<open>a1\<close> to the target version 2.0.0 and the worker
  reports 100 percent, so the estimate completes the item before the sync; the log of
  the batch ends without a success entry.
\<close>

theorem ground_truth_sync_counterexample:
  "map_option sa_version (pf_store_apps installed_platform ''a1'') = Some ''2.0.0''
   \<and> map_option (\<lambda>(mon, st). (map (\<lambda>it. (bi_application it, bi_to_version it, bi_state it)) (batch_items st),
                   map le_activity_type (activity_log st))) installed_run
     = Some ([(''a1'', ''2.0.0'', I_completed)],
             [A_start, A_info, A_start, A_info, A_info, A_progress, A_complete])"
  by code_simp

text \<open>
  C1 (amended). Take a run of the monitor whose passes all continue until one reads the
  worker in a terminal state, within the maximum run time: the run ends in that pass,
  with the sync and the finalization, and keeps the number and order of the items. Take
  an item of the batch whose application is a record of the package inventory and whose
  \<open>sys_id\<close> no other item has. What the estimate of that last pass leaves of it is the
  same item, \<open>installing\<close> or \<open>completed\<close> when it was \<open>installing\<close> at the start. If the
  installed version equals the target version, the item ends \<open>completed\<close>, with progress
  100 unless it was \<open>completed\<close> when the monitor started; when the estimate has not
  left it \<open>completed\<close>, a success entry is logged for it, and when the estimate has left
  it \<open>completed\<close>, the sync leaves the item as it is and the pass writes no log entry for
  it. If the versions differ and the estimate has left the item \<open>installing\<close>, it ends
  \<open>failed\<close> with the version-mismatch error message and a failure entry is logged for it.
\<close>

theorem ground_truth_sync:
  assumes run: "passes est pf b start pre (monitor_started b w st) = Some ms"
    and worker: "ob_worker ob = Some pw" "is_terminal (pw_state pw)"
      "ob_time ob - start \<le> MAX_POLL_TIME_MS"
    and item: "i < length (batch_items st)" "bi_batch_request (batch_items st ! i) = b"
      "gr_get (pf_store_apps pf) (bi_application (batch_items st ! i)) = Some appGr"
      "bi_sys_id (batch_items st ! i) \<noteq> []"
    and unique: "\<forall>j < length (batch_items st). j \<noteq> i \<longrightarrow>
                   bi_sys_id (batch_items st ! j) \<noteq> bi_sys_id (batch_items st ! i)"
  shows "\<exists>ms'. execute est pf b w start (pre @ ob # rest) st = Some ms'
          \<and> (let it0 = batch_items st ! i;
                   it = batch_items (snd (message_block est b (ob_time ob) pw ms)) ! i;
                   it' = batch_items (snd ms') ! i;
                   new = written_since (snd ms) (snd ms')
               in length (batch_items (snd ms')) = length (batch_items st)
                \<and> estimated it0 it
                \<and> (sa_version appGr = bi_to_version it0 \<longrightarrow>
                     bi_state it' = I_completed
                     \<and> (bi_state it0 \<noteq> I_completed \<longrightarrow> bi_progress_percent it' = 100)
                     \<and> (bi_state it \<noteq> I_completed \<longrightarrow>
                          (\<exists>e \<in> set new. is_success_entry b it0 e))
                     \<and> (bi_state it = I_completed \<longrightarrow>
                          it' = it \<and> (\<forall>e \<in> set new. le_batch_item e \<noteq> Some (bi_sys_id it0))))
                \<and> (sa_version appGr \<noteq> bi_to_version it0 \<and> bi_state it = I_installing \<longrightarrow>
                     bi_state it' = I_failed
                     \<and> bi_error_message it' = mismatch_message (bi_to_version it0) (sa_version appGr)
                     \<and> (\<exists>e \<in> set new. is_failure_entry b it0 e)))"
proof -
  define now where "now = ob_time ob"
  from terminal_pass [OF worker, of est pf b ms] obtain ms' mon st1 A S C where
    t: "poll est pf b start ob ms = Break ms'"
       "batch_items st1 = batch_items (snd (message_block est b now pw ms))"
       "batch_items (snd ms') = map (synced_row pf now b) (batch_items st1)"
       "written_since (snd ms) (snd ms') = A @ S @ C"
       "S = written_since st1 (snd (syncFinalItemStates pf now b (mon, st1)))"
       "\<forall>e \<in> set A. le_batch_item e = None" "\<forall>e \<in> set C. le_batch_item e = None"
    unfolding now_def by blast
  define it0 where "it0 = batch_items st ! i"
  define it where "it = batch_items st1 ! i"
  have ex: "execute est pf b w start (pre @ ob # rest) st = Some ms'"
    using passes_poll_loop [OF run, of "ob # rest"] t(1) by (simp add: execute_monitor_started)
  have "estimated_rows (batch_items st) (batch_items (snd ms))"
    using passes_estimated [OF run] by (simp add: monitor_started_items)
  moreover have "estimated_rows (batch_items (snd ms)) (batch_items st1)"
    unfolding t(2) by (rule message_block_estimated)
  ultimately have er: "estimated_rows (batch_items st) (batch_items st1)"
    by (rule estimated_rows_trans)
  then have len: "length (batch_items st1) = length (batch_items st)"
    and est: "estimated it0 it"
    using item(1) by (simp_all add: estimated_rows_def it0_def it_def)
  have i1: "i < length (batch_items st1)" using len item(1) by simp
  have mem: "it \<in> set (batch_items st1)" using i1 by (simp add: it_def)
  have it': "batch_items (snd ms') ! i = synced_row pf now b it"
    using t(3) i1 by (simp add: it_def)
  have same: "bi_sys_id it = bi_sys_id it0" "bi_batch_request it = b" "bi_application it = bi_application it0"
    "bi_application_name it = bi_application_name it0" "bi_to_version it = bi_to_version it0"
    using est item(2) by (simp_all add: estimated_def it0_def)
  have g: "gr_get (pf_store_apps pf) (bi_application it) = Some appGr"
    using same(3) item(3) by (simp add: it0_def)
  have sid: "bi_sys_id it \<noteq> []" using same(1) item(4) by (simp add: it0_def)
  have logged: "sync_logged pf b it S"
    unfolding t(5) using mem same(2) sid by (intro syncFinalItemStates_entries)
  from syncFinalItemStates_touched [of pf now b mon st1] obtain S' where
    s': "activity_log (snd (syncFinalItemStates pf now b (mon, st1))) = activity_log st1 @ S'"
        "\<forall>e \<in> set S'. le_batch_item e = None
              \<or> (\<exists>x \<in> set (batch_items st1). le_batch_item e = Some (bi_sys_id x)
                    \<and> synced_row pf now b x \<noteq> x)"
    by blast
  have "S' = S" using s'(1) by (simp add: t(5) written_since_def)
  with s'(2) have touched: "\<forall>e \<in> set S. le_batch_item e = None
              \<or> (\<exists>x \<in> set (batch_items st1). le_batch_item e = Some (bi_sys_id x)
                    \<and> synced_row pf now b x \<noteq> x)"
    by simp
  have se: "is_success_entry b it e = is_success_entry b it0 e" for e
    using same by (simp add: is_success_entry_def)
  have fe: "is_failure_entry b it e = is_failure_entry b it0 e" for e
    using same by (simp add: is_failure_entry_def)
  note m = synced_row_match [OF g same(2), of now]
  have 1: "length (batch_items (snd ms')) = length (batch_items st)"
    using t(3) len by simp
  have 2: "sa_version appGr = bi_to_version it0 \<longrightarrow> bi_state (synced_row pf now b it) = I_completed"
    using m(1) same(5) by simp
  have 3: "sa_version appGr = bi_to_version it0 \<and> bi_state it0 \<noteq> I_completed \<longrightarrow>
        bi_progress_percent (synced_row pf now b it) = 100"
  proof
    assume a: "sa_version appGr = bi_to_version it0 \<and> bi_state it0 \<noteq> I_completed"
    show "bi_progress_percent (synced_row pf now b it) = 100"
    proof (cases "bi_state it = I_completed")
      case True
      with a est have "bi_progress_percent it = 100"
        by (auto simp: estimated_def split: if_splits)
      moreover have "synced_row pf now b it = it" using m(1) a True same(5) by simp
      ultimately show ?thesis by simp
    next
      case False
      with m(1) a same(5) show ?thesis by simp
    qed
  qed
  have 4: "sa_version appGr = bi_to_version it0 \<and> bi_state it \<noteq> I_completed \<longrightarrow>
        (\<exists>e \<in> set (A @ S @ C). is_success_entry b it0 e)"
    using logged g same(5) by (auto simp: sync_logged_def list_ex_iff se)
  have 5: "sa_version appGr = bi_to_version it0 \<and> bi_state it = I_completed \<longrightarrow>
        synced_row pf now b it = it
        \<and> (\<forall>e \<in> set (A @ S @ C). le_batch_item e \<noteq> Some (bi_sys_id it0))"
  proof (intro impI conjI ballI)
    assume a: "sa_version appGr = bi_to_version it0 \<and> bi_state it = I_completed"
    then show u: "synced_row pf now b it = it" using m(1) same(5) by simp
    fix e
    assume e: "e \<in> set (A @ S @ C)"
    show "le_batch_item e \<noteq> Some (bi_sys_id it0)"
    proof
      assume eq: "le_batch_item e = Some (bi_sys_id it0)"
      with e t(6,7) have "e \<in> set S" by auto
      with touched eq obtain x where
        x: "x \<in> set (batch_items st1)" "bi_sys_id x = bi_sys_id it0" "synced_row pf now b x \<noteq> x"
        by auto
      from x(1) obtain j where j: "j < length (batch_items st1)" "x = batch_items st1 ! j"
        by (auto simp: in_set_conv_nth)
      have "estimated (batch_items st ! j) x"
        using er j len by (simp add: estimated_rows_def)
      then have "bi_sys_id (batch_items st ! j) = bi_sys_id it0"
        using x(2) by (simp add: estimated_def)
      with unique j(1) len have "j = i" by (auto simp: it0_def)
      with j(2) have "x = it" by (simp add: it_def)
      with x(3) u show False by simp
    qed
  qed
  have 6: "sa_version appGr \<noteq> bi_to_version it0 \<and> bi_state it = I_installing \<longrightarrow>
        bi_state (synced_row pf now b it) = I_failed
        \<and> bi_error_message (synced_row pf now b it) = mismatch_message (bi_to_version it0) (sa_version appGr)
        \<and> (\<exists>e \<in> set (A @ S @ C). is_failure_entry b it0 e)"
    using m(2) logged g same(5) by (auto simp: sync_logged_def list_ex_iff fe)
  have it_eq: "batch_items (snd (message_block est b (ob_time ob) pw ms)) ! i = it"
    by (simp add: it_def t(2) now_def)
  from ex 1 est 2 3 4 5 6 show ?thesis
    unfolding Let_def it0_def [symmetric] it_eq by (intro exI [of _ ms']) (simp add: it' t(4))
qed

theorem ground_truth_sync_witness:
  "map (\<lambda>it. (bi_sys_id it, bi_batch_request it, bi_application it, bi_to_version it, bi_state it))
      (batch_items started_store) = [(''i0'', ''b1'', ''a1'', ''2.0.0'', I_installing)]
   \<and> map_option sa_version (gr_get (pf_store_apps installed_platform) ''a1'') = Some ''2.0.0''
   \<and> map_option sa_version (gr_get (pf_store_apps example_platform) ''a1'') = Some ''1.0.0''
   \<and> map_option (\<lambda>ms. bi_state (batch_items (snd (message_block example_estimator ''b1'' 40
           (complete ''Installing'') ms)) ! 0))
         (passes example_estimator installed_platform ''b1'' 10 (reads [50])
            (monitor_started ''b1'' ''pw'' started_store)) = Some I_installing
   \<and> map_option (\<lambda>ms. bi_state (batch_items (snd (message_block example_estimator ''b1'' 40
           (complete ''Installing'') ms)) ! 0))
         (passes example_estimator example_platform ''b1'' 10 (reads [50])
            (monitor_started ''b1'' ''pw'' started_store)) = Some I_installing
   \<and> (\<exists>ms'. execute example_estimator installed_platform ''b1'' ''pw'' 10
                (reads [50] @ completes # []) started_store = Some ms'
            \<and> bi_state (batch_items (snd ms') ! 0) = I_completed
            \<and> bi_progress_percent (batch_items (snd ms') ! 0) = 100)
   \<and> (\<exists>ms'. execute example_estimator example_platform ''b1'' ''pw'' 10
                (reads [50] @ completes # []) started_store = Some ms'
            \<and> bi_state (batch_items (snd ms') ! 0) = I_failed
            \<and> bi_error_message (batch_items (snd ms') ! 0) =
                ''Version mismatch after install. Expected 2.0.0, found 1.0.0'')"
proof -
  have items: "map (\<lambda>it. (bi_sys_id it, bi_batch_request it, bi_application it, bi_to_version it, bi_state it))
      (batch_items started_store) = [(''i0'', ''b1'', ''a1'', ''2.0.0'', I_installing)]"
    by code_simp
  then obtain it where it: "batch_items started_store = [it]" "bi_sys_id it = ''i0''"
      "bi_batch_request it = ''b1''" "bi_application it = ''a1''" "bi_to_version it = ''2.0.0''"
      "bi_state it = I_installing"
    by auto
  define new where "new = \<lparr>sa_display_value = ''App One'', sa_version = ''2.0.0''\<rparr>"
  define old where "old = \<lparr>sa_display_value = ''App One'', sa_version = ''1.0.0''\<rparr>"
  have n: "gr_get (pf_store_apps installed_platform) ''a1'' = Some new"
    by (simp add: installed_platform_def example_platform_def gr_get_def new_def)
  have o: "gr_get (pf_store_apps example_platform) ''a1'' = Some old"
    by (simp add: example_platform_def gr_get_def old_def)
  have h: "0 < length (batch_items started_store)" "bi_batch_request (batch_items started_store ! 0) = ''b1''"
      "bi_sys_id (batch_items started_store ! 0) \<noteq> []"
    using it by simp_all
  have u: "\<forall>j < length (batch_items started_store). j \<noteq> 0 \<longrightarrow>
      bi_sys_id (batch_items started_store ! j) \<noteq> bi_sys_id (batch_items started_store ! 0)"
    using it by simp
  have hn: "gr_get (pf_store_apps installed_platform) (bi_application (batch_items started_store ! 0)) = Some new"
    using it n by simp
  have ho: "gr_get (pf_store_apps example_platform) (bi_application (batch_items started_store ! 0)) = Some old"
    using it o by simp
  have w: "ob_worker completes = Some (complete ''Installing'')"
      "is_terminal (pw_state (complete ''Installing''))"
      "ob_time completes - 10 \<le> MAX_POLL_TIME_MS"
    by (simp_all add: completes_def complete_def is_terminal_def MAX_POLL_TIME_MS_def)
  have t: "ob_time completes = 40"
    by (simp add: completes_def)
  have rn: "map_option (\<lambda>ms. bi_state (batch_items (snd (message_block example_estimator ''b1'' 40
           (complete ''Installing'') ms)) ! 0))
         (passes example_estimator installed_platform ''b1'' 10 (reads [50])
            (monitor_started ''b1'' ''pw'' started_store)) = Some I_installing"
    by code_simp
  have ro: "map_option (\<lambda>ms. bi_state (batch_items (snd (message_block example_estimator ''b1'' 40
           (complete ''Installing'') ms)) ! 0))
         (passes example_estimator example_platform ''b1'' 10 (reads [50])
            (monitor_started ''b1'' ''pw'' started_store)) = Some I_installing"
    by code_simp
  from rn obtain msn where msn: "passes example_estimator installed_platform ''b1'' 10 (reads [50])
            (monitor_started ''b1'' ''pw'' started_store) = Some msn"
    by auto
  from ro obtain mso where mso: "passes example_estimator example_platform ''b1'' 10 (reads [50])
            (monitor_started ''b1'' ''pw'' started_store) = Some mso"
      "bi_state (batch_items (snd (message_block example_estimator ''b1'' 40
           (complete ''Installing'') mso)) ! 0) = I_installing"
    by auto
  from ground_truth_sync [OF msn w h(1,2) hn h(3) u, of "[]"]
  have a: "\<exists>ms'. execute example_estimator installed_platform ''b1'' ''pw'' 10
                (reads [50] @ completes # []) started_store = Some ms'
            \<and> bi_state (batch_items (snd ms') ! 0) = I_completed
            \<and> bi_progress_percent (batch_items (snd ms') ! 0) = 100"
    using it by (auto simp: Let_def new_def)
  from ground_truth_sync [OF mso(1) w h(1,2) ho h(3) u, of "[]"] mso(2)
  have b: "\<exists>ms'. execute example_estimator example_platform ''b1'' ''pw'' 10
                (reads [50] @ completes # []) started_store = Some ms'
            \<and> bi_state (batch_items (snd ms') ! 0) = I_failed
            \<and> bi_error_message (batch_items (snd ms') ! 0) =
                ''Version mismatch after install. Expected 2.0.0, found 1.0.0''"
    using it by (auto simp: Let_def old_def t mismatch_message_def getValue_def js_str_def)
  from items n o rn ro a b show ?thesis
    by (simp add: new_def old_def)
qed


section \<open>The dependency order\<close>

lemma precedes_append: "precedes d a xs \<Longrightarrow> precedes d a (xs @ ys)"
  by (induction xs) auto

lemma precedes_last: "d \<in> set xs \<Longrightarrow> precedes d a (xs @ [a])"
  by (induction xs) auto

lemma precedes_mem: "precedes d a xs \<Longrightarrow> d \<in> set xs \<and> a \<in> set xs"
  by (induction xs) (auto split: if_splits)

lemma truthy_prop_own:
  "k \<notin> set proto \<Longrightarrow> truthy_prop proto obj k = (obj k = Some True)"
  by (cases "obj k") (simp_all add: truthy_prop_def)

lemma truthy_prop_inherited:
  "k \<in> set proto \<Longrightarrow> obj k = None \<Longrightarrow> truthy_prop proto obj k"
  by (simp add: truthy_prop_def)

lemma fuel_left_mark:
  assumes "id' \<in> set appIds" and "ss_visiting st id' \<noteq> Some True"
  shows "Suc (fuel_left appIds (st\<lparr>ss_visiting := (ss_visiting st)(id' \<mapsto> True)\<rparr>)) = fuel_left appIds st"
proof -
  let ?U = "{x \<in> set appIds. ss_visiting st x \<noteq> Some True}"
  have "{x \<in> set appIds. ss_visiting (st\<lparr>ss_visiting := (ss_visiting st)(id' \<mapsto> True)\<rparr>) x \<noteq> Some True} = ?U - {id'}"
    by auto
  then have "fuel_left appIds (st\<lparr>ss_visiting := (ss_visiting st)(id' \<mapsto> True)\<rparr>) = card (?U - {id'})"
    unfolding fuel_left_def by (rule arg_cong)
  moreover have "id' \<in> ?U" using assms by simp
  moreover have "finite ?U" by simp
  ultimately show ?thesis
    unfolding fuel_left_def using card_Suc_Diff1 [of ?U id'] by presburger
qed

lemma sort_step_refl: "sort_inv proto appIds depMap st \<Longrightarrow> sort_step proto appIds depMap st st"
  by (simp add: sort_step_def)

lemma sort_step_trans:
  "sort_step proto appIds depMap st st1 \<Longrightarrow> sort_step proto appIds depMap st1 st2 \<Longrightarrow>
   sort_step proto appIds depMap st st2"
  by (simp add: sort_step_def)

lemma sort_step_fuel:
  "sort_step proto appIds depMap st st' \<Longrightarrow> fuel_left appIds st' = fuel_left appIds st"
  by (simp add: sort_step_def fuel_left_def)

lemma visit_deps_ok:
  assumes v: "\<And>id' st. id' \<in> set appIds \<Longrightarrow> sort_inv proto appIds depMap st \<Longrightarrow> fuel_left appIds st < n \<Longrightarrow>
            \<exists>st'. visit proto appIds depMap n id' st = Some st' \<and> sort_step proto appIds depMap st st'
               \<and> (\<not> truthy_prop proto (ss_visiting st) id' \<longrightarrow> ss_visited st' id' = Some True)
               \<and> (truthy_prop proto (ss_visiting st) id' \<longrightarrow> ss_conflicts st' \<noteq> [])"
  shows "sort_inv proto appIds depMap st \<Longrightarrow> fuel_left appIds st < n \<Longrightarrow>
           \<exists>st'. visit_deps proto appIds depMap n ds st = Some st' \<and> sort_step proto appIds depMap st st'
              \<and> (ss_conflicts st' = [] \<longrightarrow> (\<forall>d \<in> set ds. d \<in> set appIds \<longrightarrow> ss_visited st' d = Some True))"
proof (induction ds arbitrary: st)
  case Nil
  then show ?case by (simp add: sort_step_refl)
next
  case (Cons d ds)
  show ?case
  proof (cases "d \<in> set appIds")
    case False
    with Cons.IH [OF Cons.prems] show ?thesis by simp
  next
    case True
    from v [OF True Cons.prems] obtain st1 where
      1: "visit proto appIds depMap n d st = Some st1" "sort_step proto appIds depMap st st1"
         "\<not> truthy_prop proto (ss_visiting st) d \<longrightarrow> ss_visited st1 d = Some True"
         "truthy_prop proto (ss_visiting st) d \<longrightarrow> ss_conflicts st1 \<noteq> []"
      by blast
    have i1: "sort_inv proto appIds depMap st1" using 1(2) by (simp add: sort_step_def)
    have f1: "fuel_left appIds st1 < n"
      using sort_step_fuel [OF 1(2)] Cons.prems(2) by simp
    from Cons.IH [OF i1 f1] obtain st2 where
      2: "visit_deps proto appIds depMap n ds st1 = Some st2" "sort_step proto appIds depMap st1 st2"
         "ss_conflicts st2 = [] \<longrightarrow> (\<forall>d \<in> set ds. d \<in> set appIds \<longrightarrow> ss_visited st2 d = Some True)"
      by blast
    have "ss_conflicts st2 = [] \<longrightarrow> ss_visited st2 d = Some True"
      using 1(3,4) 2(2) by (auto simp: sort_step_def)
    with True 1(1) 2 sort_step_trans [OF 1(2) 2(2)] show ?thesis by simp
  qed
qed

lemma visit_ok:
  "id' \<in> set appIds \<Longrightarrow> sort_inv proto appIds depMap st \<Longrightarrow> fuel_left appIds st < n \<Longrightarrow>
     \<exists>st'. visit proto appIds depMap n id' st = Some st' \<and> sort_step proto appIds depMap st st'
        \<and> (\<not> truthy_prop proto (ss_visiting st) id' \<longrightarrow> ss_visited st' id' = Some True)
        \<and> (truthy_prop proto (ss_visiting st) id' \<longrightarrow> ss_conflicts st' \<noteq> [])"
proof (induction n arbitrary: id' st)
  case 0
  then show ?case by simp
next
  case (Suc n)
  note inv = Suc.prems(2)
  consider "truthy_prop proto (ss_visiting st) id'"
    | "\<not> truthy_prop proto (ss_visiting st) id'" "truthy_prop proto (ss_visited st) id'"
    | "\<not> truthy_prop proto (ss_visiting st) id'" "\<not> truthy_prop proto (ss_visited st) id'"
    by blast
  then show ?case
  proof cases
    case 1
    then show ?thesis using inv by (auto simp: sort_step_def sort_inv_def)
  next
    case 2
    have "id' \<notin> set proto"
      using 2(1) inv by (auto simp: sort_inv_def truthy_prop_def)
    with 2(2) have "ss_visited st id' = Some True" by (simp add: truthy_prop_own)
    with 2 show ?thesis using inv by (simp add: sort_step_refl)
  next
    case 3
    have np: "id' \<notin> set proto"
      using 3(1) inv by (auto simp: sort_inv_def truthy_prop_def)
    have nv0: "ss_visiting st id' \<noteq> Some True" and nd0: "ss_visited st id' \<noteq> Some True"
      using 3 np by (simp_all add: truthy_prop_own)
    define st1 where "st1 = st\<lparr>ss_visiting := (ss_visiting st)(id' \<mapsto> True)\<rparr>"
    have i1: "sort_inv proto appIds depMap st1"
      using inv nd0 np by (auto simp: sort_inv_def st1_def)
    have f1: "fuel_left appIds st1 < n"
      using fuel_left_mark [OF Suc.prems(1) nv0] Suc.prems(3) by (simp add: st1_def)
    from visit_deps_ok [of appIds proto depMap n, OF Suc.IH i1 f1, of "deps_of depMap id'"]
    obtain st2 where
      2: "visit_deps proto appIds depMap n (deps_of depMap id') st1 = Some st2"
         "sort_step proto appIds depMap st1 st2"
         "ss_conflicts st2 = [] \<longrightarrow> (\<forall>d \<in> set (deps_of depMap id'). d \<in> set appIds \<longrightarrow> ss_visited st2 d = Some True)"
      by blast
    define st3 where "st3 = st2\<lparr>ss_visiting := (ss_visiting st2)(id' \<mapsto> False),
                       ss_visited := (ss_visited st2)(id' \<mapsto> True),
                       ss_order := ss_order st2 @ [id']\<rparr>"
    have r: "visit proto appIds depMap (Suc n) id' st = Some st3"
      using 3 2(1) by (simp add: st1_def st3_def)
    have i2: "sort_inv proto appIds depMap st2"
      and t2: "\<forall>x. truthy_prop proto (ss_visiting st2) x = truthy_prop proto (ss_visiting st1) x"
      and v2: "\<forall>x. (ss_visiting st2 x = Some True) = (ss_visiting st1 x = Some True)"
      and m2: "\<forall>x. ss_visited st1 x = Some True \<longrightarrow> ss_visited st2 x = Some True"
      and c2: "ss_conflicts st2 = [] \<longrightarrow> ss_conflicts st1 = []"
      using 2(2) by (simp_all add: sort_step_def)
    have "ss_visiting st2 id' = Some True" using v2 by (simp add: st1_def)
    then have nv: "ss_visited st2 id' \<noteq> Some True"
      using i2 by (auto simp: sort_inv_def)
    then have nm: "id' \<notin> set (ss_order st2)"
      using i2 by (auto simp: sort_inv_def)
    have v3: "\<forall>x. (ss_visiting st3 x = Some True) = (ss_visiting st x = Some True)"
      using nv0 v2 by (auto simp: st3_def st1_def)
    have t3: "\<forall>x. truthy_prop proto (ss_visiting st3) x = truthy_prop proto (ss_visiting st) x"
    proof
      fix x
      show "truthy_prop proto (ss_visiting st3) x = truthy_prop proto (ss_visiting st) x"
      proof (cases "x = id'")
        case True
        then show ?thesis using 3(1) by (simp add: st3_def truthy_prop_def)
      next
        case False
        then have "truthy_prop proto (ss_visiting st3) x = truthy_prop proto (ss_visiting st2) x"
          by (simp add: st3_def truthy_prop_def)
        also have "\<dots> = truthy_prop proto (ss_visiting st1) x" using t2 by simp
        also have "\<dots> = truthy_prop proto (ss_visiting st) x"
          using False by (simp add: st1_def truthy_prop_def)
        finally show ?thesis .
      qed
    qed
    have o3: "ss_conflicts st3 = [] \<longrightarrow>
           (\<forall>a \<in> set (ss_order st3). \<forall>d \<in> set (deps_of depMap a).
              d \<in> set appIds \<longrightarrow> precedes d a (ss_order st3))"
    proof (intro impI ballI)
      fix a d
      assume c: "ss_conflicts st3 = []" and a: "a \<in> set (ss_order st3)"
        and d: "d \<in> set (deps_of depMap a)" "d \<in> set appIds"
      have c2': "ss_conflicts st2 = []" using c by (simp add: st3_def)
      show "precedes d a (ss_order st3)"
      proof (cases "a = id'")
        case True
        with 2(3) c2' d have "ss_visited st2 d = Some True" by simp
        then have "d \<in> set (ss_order st2)" using i2 by (auto simp: sort_inv_def)
        then show ?thesis using True by (simp add: st3_def precedes_last)
      next
        case False
        with a have "a \<in> set (ss_order st2)" by (simp add: st3_def)
        with i2 c2' d have "precedes d a (ss_order st2)" by (simp add: sort_inv_def)
        then show ?thesis by (simp add: st3_def precedes_append)
      qed
    qed
    have i3: "sort_inv proto appIds depMap st3"
      unfolding sort_inv_def
    proof (intro conjI)
      show "distinct (ss_order st3)" using i2 nm by (simp add: st3_def sort_inv_def)
      show "set (ss_order st3) = {x. ss_visited st3 x = Some True}"
        using i2 by (auto simp: st3_def sort_inv_def)
      show "\<forall>x. ss_visited st3 x = Some True \<longrightarrow> ss_visiting st3 x \<noteq> Some True"
        using i2 by (auto simp: st3_def sort_inv_def)
      show "set (ss_order st3) \<subseteq> set appIds"
        using i2 Suc.prems(1) by (auto simp: st3_def sort_inv_def)
      show "\<forall>x \<in> set proto. ss_visited st3 x = None \<and> ss_visiting st3 x = None"
        using i2 np by (auto simp: st3_def sort_inv_def)
      show "ss_conflicts st3 = [] \<longrightarrow>
           (\<forall>a \<in> set (ss_order st3). \<forall>d \<in> set (deps_of depMap a).
              d \<in> set appIds \<longrightarrow> precedes d a (ss_order st3))"
        by (rule o3)
    qed
    have s3: "sort_step proto appIds depMap st st3"
      unfolding sort_step_def
    proof (intro conjI)
      show "sort_inv proto appIds depMap st3" by (rule i3)
      show "\<forall>x. truthy_prop proto (ss_visiting st3) x = truthy_prop proto (ss_visiting st) x" by (rule t3)
      show "\<forall>x. (ss_visiting st3 x = Some True) = (ss_visiting st x = Some True)" by (rule v3)
      show "\<forall>x. ss_visited st x = Some True \<longrightarrow> ss_visited st3 x = Some True"
        using m2 by (auto simp: st3_def st1_def)
      show "ss_conflicts st3 = [] \<longrightarrow> ss_conflicts st = []"
        using c2 by (simp add: st3_def st1_def)
    qed
    show ?thesis using r s3 3(1) by (simp add: st3_def)
  qed
qed

lemma visit_all_ok:
  "set as \<subseteq> set appIds \<Longrightarrow> sort_inv proto appIds depMap st \<Longrightarrow> fuel_left appIds st < n \<Longrightarrow>
   \<forall>x. ss_visiting st x \<noteq> Some True \<Longrightarrow>
     \<exists>st'. visit_all proto appIds depMap n as st = Some st' \<and> sort_step proto appIds depMap st st'
        \<and> (\<forall>a \<in> set as. a \<notin> set proto \<longrightarrow> ss_visited st' a = Some True)
        \<and> ((\<exists>a \<in> set as. a \<in> set proto) \<longrightarrow> ss_conflicts st' \<noteq> [])"
proof (induction as arbitrary: st)
  case Nil
  then show ?case by (simp add: sort_step_refl)
next
  case (Cons a as)
  have a: "a \<in> set appIds" and as: "set as \<subseteq> set appIds" using Cons.prems(1) by simp_all
  have ta: "truthy_prop proto (ss_visiting st) a = (a \<in> set proto)"
  proof (cases "a \<in> set proto")
    case True
    then show ?thesis using Cons.prems(2) by (simp add: sort_inv_def truthy_prop_def)
  next
    case False
    then show ?thesis using Cons.prems(4) by (simp add: truthy_prop_own)
  qed
  from visit_ok [OF a Cons.prems(2,3)] ta obtain st1 where
    1: "visit proto appIds depMap n a st = Some st1" "sort_step proto appIds depMap st st1"
       "a \<notin> set proto \<longrightarrow> ss_visited st1 a = Some True"
       "a \<in> set proto \<longrightarrow> ss_conflicts st1 \<noteq> []"
    by auto
  have i1: "sort_inv proto appIds depMap st1" using 1(2) by (simp add: sort_step_def)
  have f1: "fuel_left appIds st1 < n" using sort_step_fuel [OF 1(2)] Cons.prems(3) by simp
  have v1: "\<forall>x. ss_visiting st1 x \<noteq> Some True"
    using 1(2) Cons.prems(4) by (simp add: sort_step_def)
  from Cons.IH [OF as i1 f1 v1] obtain st2 where
    2: "visit_all proto appIds depMap n as st1 = Some st2" "sort_step proto appIds depMap st1 st2"
       "\<forall>a \<in> set as. a \<notin> set proto \<longrightarrow> ss_visited st2 a = Some True"
       "(\<exists>a \<in> set as. a \<in> set proto) \<longrightarrow> ss_conflicts st2 \<noteq> []"
    by blast
  have "a \<notin> set proto \<longrightarrow> ss_visited st2 a = Some True"
    using 1(3) 2(2) by (simp add: sort_step_def)
  moreover have "a \<in> set proto \<longrightarrow> ss_conflicts st2 \<noteq> []"
    using 1(4) 2(2) by (auto simp: sort_step_def)
  ultimately show ?case
    using 1(1) 2 sort_step_trans [OF 1(2) 2(2)] by auto
qed

lemma initial_sort_inv: "sort_inv proto appIds depMap initial_sort_state"
  by (simp add: sort_inv_def initial_sort_state_def)

lemma initial_fuel_left: "fuel_left appIds initial_sort_state \<le> length appIds"
  by (simp add: fuel_left_def initial_sort_state_def card_length)

lemma topologicalSort_total:
  assumes "length appIds < n"
  shows "\<exists>st'. visit_all proto appIds depMap n appIds initial_sort_state = Some st'
           \<and> topologicalSort proto n appIds depMap = Some (ss_order st', ss_conflicts st')
           \<and> sort_inv proto appIds depMap st'
           \<and> set (ss_order st') = {a \<in> set appIds. a \<notin> set proto}
           \<and> ((\<exists>a \<in> set appIds. a \<in> set proto) \<longrightarrow> ss_conflicts st' \<noteq> [])"
proof -
  have f: "fuel_left appIds initial_sort_state < n"
    using initial_fuel_left [of appIds] assms by simp
  have e: "\<forall>x. ss_visiting initial_sort_state x \<noteq> Some True"
    by (simp add: initial_sort_state_def)
  from visit_all_ok [OF subset_refl initial_sort_inv f e, of proto depMap] obtain st' where
    1: "visit_all proto appIds depMap n appIds initial_sort_state = Some st'"
       "sort_step proto appIds depMap initial_sort_state st'"
       "\<forall>a \<in> set appIds. a \<notin> set proto \<longrightarrow> ss_visited st' a = Some True"
       "(\<exists>a \<in> set appIds. a \<in> set proto) \<longrightarrow> ss_conflicts st' \<noteq> []"
    by blast
  have i: "sort_inv proto appIds depMap st'" using 1(2) by (simp add: sort_step_def)
  have "set (ss_order st') = {a \<in> set appIds. a \<notin> set proto}"
  proof
    show "set (ss_order st') \<subseteq> {a \<in> set appIds. a \<notin> set proto}"
      using i by (auto simp: sort_inv_def)
    show "{a \<in> set appIds. a \<notin> set proto} \<subseteq> set (ss_order st')"
      using i 1(3) by (auto simp: sort_inv_def)
  qed
  with 1(1,4) i show ?thesis by (simp add: topologicalSort_def)
qed

lemma visit_deps_more_fuel:
  assumes "\<And>id' st r. visit proto appIds depMap n id' st = Some r \<Longrightarrow> visit proto appIds depMap (Suc n) id' st = Some r"
  shows "visit_deps proto appIds depMap n ds st = Some r \<Longrightarrow> visit_deps proto appIds depMap (Suc n) ds st = Some r"
proof (induction ds arbitrary: st)
  case Nil
  then show ?case by simp
next
  case (Cons d ds)
  show ?case
  proof (cases "d \<in> set appIds")
    case False
    with Cons show ?thesis by simp
  next
    case True
    with Cons.prems obtain st1 where
      1: "visit proto appIds depMap n d st = Some st1" "visit_deps proto appIds depMap n ds st1 = Some r"
      by (auto split: option.splits)
    from assms [OF 1(1)] Cons.IH [OF 1(2)] True show ?thesis by simp
  qed
qed

lemma visit_more_fuel:
  "visit proto appIds depMap n id' st = Some r \<Longrightarrow> visit proto appIds depMap (Suc n) id' st = Some r"
proof (induction n arbitrary: id' st r)
  case 0
  then show ?case by simp
next
  case (Suc n)
  show ?case
  proof (cases "truthy_prop proto (ss_visiting st) id' \<or> truthy_prop proto (ss_visited st) id'")
    case True
    with Suc.prems show ?thesis by auto
  next
    case False
    with Suc.prems obtain st2 where
      2: "visit_deps proto appIds depMap n (deps_of depMap id')
            (st\<lparr>ss_visiting := (ss_visiting st)(id' \<mapsto> True)\<rparr>) = Some st2"
         "r = st2\<lparr>ss_visiting := (ss_visiting st2)(id' \<mapsto> False),
                       ss_visited := (ss_visited st2)(id' \<mapsto> True),
                       ss_order := ss_order st2 @ [id']\<rparr>"
      by (auto split: option.splits)
    from visit_deps_more_fuel [of proto appIds depMap n, OF Suc.IH 2(1)] False 2(2)
    show ?thesis by simp
  qed
qed

lemma visit_all_more_fuel:
  "visit_all proto appIds depMap n as st = Some r \<Longrightarrow> visit_all proto appIds depMap (Suc n) as st = Some r"
proof (induction as arbitrary: st)
  case Nil
  then show ?case by simp
next
  case (Cons a as)
  from Cons.prems obtain st1 where
    1: "visit proto appIds depMap n a st = Some st1" "visit_all proto appIds depMap n as st1 = Some r"
    by (auto split: option.splits)
  from visit_more_fuel [OF 1(1)] Cons.IH [OF 1(2)] show ?case by simp
qed

lemma topologicalSort_more_fuel:
  "topologicalSort proto n appIds depMap = Some r \<Longrightarrow> n \<le> m \<Longrightarrow> topologicalSort proto m appIds depMap = Some r"
proof (induction m)
  case 0
  then show ?case by simp
next
  case (Suc m)
  show ?case
  proof (cases "n = Suc m")
    case True
    with Suc.prems show ?thesis by simp
  next
    case False
    with Suc have "topologicalSort proto m appIds depMap = Some r" by simp
    then show ?thesis
      by (auto simp: topologicalSort_def dest: visit_all_more_fuel)
  qed
qed

lemma precedes_position:
  "distinct xs \<Longrightarrow> precedes d a xs \<Longrightarrow>
     length (takeWhile (\<lambda>y. y \<noteq> d) xs) < length (takeWhile (\<lambda>y. y \<noteq> a) xs)"
proof (induction xs)
  case Nil
  then show ?case by simp
next
  case (Cons x xs)
  show ?case
  proof (cases "x = d")
    case True
    with Cons.prems show ?thesis by auto
  next
    case False
    with Cons.prems have p: "precedes d a xs" by simp
    then have "a \<in> set xs" by (simp add: precedes_mem)
    with Cons.prems have "x \<noteq> a" by auto
    with False Cons.IH p Cons.prems show ?thesis by simp
  qed
qed

lemma acyclic_if_ordered:
  assumes "distinct xs" and "\<forall>(a, d) \<in> r. precedes d a xs"
  shows "acyclic r"
proof -
  let ?f = "\<lambda>x. length (takeWhile (\<lambda>y. y \<noteq> x) xs)"
  have step: "(a, d) \<in> r \<Longrightarrow> ?f d < ?f a" for a d
    using assms precedes_position by fastforce
  have "(a, d) \<in> r\<^sup>+ \<Longrightarrow> ?f d < ?f a" for a d
  proof (induction rule: trancl_induct)
    case (base y)
    then show ?case by (rule step)
  next
    case (step y z)
    from step.hyps(2) have "?f z < ?f y" by (rule \<open>\<And>d a. (a, d) \<in> r \<Longrightarrow> ?f d < ?f a\<close>)
    with step.IH show ?case by simp
  qed
  then show ?thesis
    unfolding acyclic_def by fastforce
qed

lemma sort_inv_acyclic:
  assumes "sort_inv proto appIds depMap st" and "set (ss_order st) = set appIds" and "ss_conflicts st = []"
  shows "acyclic (in_set_deps appIds depMap)"
proof (rule acyclic_if_ordered)
  show "distinct (ss_order st)" using assms(1) by (simp add: sort_inv_def)
  show "\<forall>(a, d) \<in> in_set_deps appIds depMap. precedes d a (ss_order st)"
    using assms by (auto simp: sort_inv_def in_set_deps_def)
qed





lemma topologicalSort_cyclic:
  assumes "length appIds < n"
  shows "\<exists>order' conflicts. topologicalSort proto n appIds depMap = Some (order', conflicts)
           \<and> topologicalSort proto (Suc (length appIds)) appIds depMap = Some (order', conflicts)
           \<and> distinct order' \<and> set order' = {a \<in> set appIds. a \<notin> set proto}
           \<and> (\<not> acyclic (in_set_deps appIds depMap) \<longrightarrow> conflicts \<noteq> [])
           \<and> ((\<exists>a \<in> set appIds. a \<in> set proto) \<longrightarrow> conflicts \<noteq> [])"
proof -
  from topologicalSort_total [of appIds "Suc (length appIds)" proto depMap] obtain st' where
    1: "topologicalSort proto (Suc (length appIds)) appIds depMap = Some (ss_order st', ss_conflicts st')"
       "sort_inv proto appIds depMap st'" "set (ss_order st') = {a \<in> set appIds. a \<notin> set proto}"
       "(\<exists>a \<in> set appIds. a \<in> set proto) \<longrightarrow> ss_conflicts st' \<noteq> []"
    by auto
  have 2: "topologicalSort proto n appIds depMap = Some (ss_order st', ss_conflicts st')"
    using topologicalSort_more_fuel [OF 1(1), of n] assms by simp
  have "ss_conflicts st' = [] \<longrightarrow> acyclic (in_set_deps appIds depMap)"
  proof
    assume c: "ss_conflicts st' = []"
    with 1(4) have "\<forall>a \<in> set appIds. a \<notin> set proto" by blast
    with 1(3) have "set (ss_order st') = set appIds" by auto
    from sort_inv_acyclic [OF 1(2) this c] show "acyclic (in_set_deps appIds depMap)" .
  qed
  moreover have "distinct (ss_order st')" using 1(2) by (simp add: sort_inv_def)
  ultimately show ?thesis using 1(1,3,4) 2 by blast
qed

lemma build_depMap_apply:
  "build_depMap rows as m a = (if a \<in> set as then Some (getAppDependencies rows a) else m a)"
  by (induction as arbitrary: m) auto

lemma in_set_deps_build:
  "in_set_deps appIds (build_depMap rows appIds Map.empty) =
     {(a, d). (a, d) \<in> set rows \<and> a \<in> set appIds \<and> d \<in> set appIds}"
  by (force simp: in_set_deps_def deps_of_def build_depMap_apply getAppDependencies_def)




text \<open>
  C8, as the claim states it, fails in the same way: with the candidates \<open>a\<close>, \<open>b\<close> and
  \<open>constructor\<close>, where \<open>a\<close> and \<open>b\<close> depend on each other, the dependency graph has a
  cycle, and the order returned does not hold the candidate \<open>constructor\<close>.
\<close>

theorem dependency_order_terminates_counterexample:
  "\<not> acyclic (in_set_deps [''a'', ''b'', ''constructor''] inherited_cycle_deps)
   \<and> topologicalSort es5_object_prototype 4 [''a'', ''b'', ''constructor''] inherited_cycle_deps =
       Some ([''b'', ''a''], [''Circular dependency detected involving a'',
                            ''Circular dependency detected involving constructor''])"
proof -
  let ?G = "in_set_deps [''a'', ''b'', ''constructor''] inherited_cycle_deps"
  have e: "(''a'', ''b'') \<in> ?G" "(''b'', ''a'') \<in> ?G"
    by (simp_all add: in_set_deps_def deps_of_def inherited_cycle_deps_def)
  then have "(''a'', ''a'') \<in> ?G\<^sup>+"
    by (meson trancl.intros)
  then have "\<not> acyclic ?G"
    by (auto simp: acyclic_def)
  moreover have "topologicalSort es5_object_prototype 4 [''a'', ''b'', ''constructor''] inherited_cycle_deps =
       Some ([''b'', ''a''], [''Circular dependency detected involving a'',
                            ''Circular dependency detected involving constructor''])"
    by code_simp
  ultimately show ?thesis by simp
qed

text \<open>
  C8 (amended). For every list of candidates and every dependency map, a nesting depth
  of one more than the number of candidates is enough for the sort to return, and any
  greater depth gives the same result: \<open>visit\<close> never nests deeper than that. The order
  returned, with or without cycles, holds exactly once every candidate whose identifier
  does not name a property that an empty object inherits: every candidate, when none is
  so named. When the dependency graph among the candidates has a cycle, and also when a
  candidate is so named, the conflict list is not empty.
\<close>

theorem dependency_order_terminates:
  assumes "length appIds < n"
  shows "\<exists>order' conflicts. topologicalSort proto n appIds depMap = Some (order', conflicts)
           \<and> topologicalSort proto (Suc (length appIds)) appIds depMap = Some (order', conflicts)
           \<and> distinct order' \<and> set order' = {a \<in> set appIds. a \<notin> set proto}
           \<and> ((\<forall>a \<in> set appIds. a \<notin> set proto) \<longrightarrow> set order' = set appIds)
           \<and> (\<not> acyclic (in_set_deps appIds depMap) \<longrightarrow> conflicts \<noteq> [])
           \<and> ((\<exists>a \<in> set appIds. a \<in> set proto) \<longrightarrow> conflicts \<noteq> [])"
proof -
  from topologicalSort_cyclic [OF assms, of proto depMap] obtain order' conflicts where
    1: "topologicalSort proto n appIds depMap = Some (order', conflicts)"
       "topologicalSort proto (Suc (length appIds)) appIds depMap = Some (order', conflicts)"
       "distinct order'" "set order' = {a \<in> set appIds. a \<notin> set proto}"
       "\<not> acyclic (in_set_deps appIds depMap) \<longrightarrow> conflicts \<noteq> []"
       "(\<exists>a \<in> set appIds. a \<in> set proto) \<longrightarrow> conflicts \<noteq> []"
    by blast
  from 1(4) have "(\<forall>a \<in> set appIds. a \<notin> set proto) \<longrightarrow> set order' = set appIds"
    by auto
  with 1 show ?thesis by blast
qed

theorem dependency_order_terminates_witness:
  "\<not> acyclic (in_set_deps [''a'', ''b'', ''c''] cycle_deps)
   \<and> list_all (\<lambda>a. a \<notin> set es5_object_prototype) [''a'', ''b'', ''c'']
   \<and> topologicalSort es5_object_prototype 4 [''a'', ''b'', ''c''] cycle_deps =
       Some ([''c'', ''b'', ''a''], [''Circular dependency detected involving a''])
   \<and> topologicalSort es5_object_prototype 9 [''a'', ''b'', ''c''] cycle_deps =
       topologicalSort es5_object_prototype 4 [''a'', ''b'', ''c''] cycle_deps"
proof -
  let ?G = "in_set_deps [''a'', ''b'', ''c''] cycle_deps"
  have e: "(''a'', ''b'') \<in> ?G" "(''b'', ''c'') \<in> ?G" "(''c'', ''a'') \<in> ?G"
    by (simp_all add: in_set_deps_def deps_of_def cycle_deps_def)
  then have "(''a'', ''a'') \<in> ?G\<^sup>+"
    by (meson trancl.intros)
  then have nac: "\<not> acyclic ?G"
    by (auto simp: acyclic_def)
  have np: "list_all (\<lambda>a. a \<notin> set es5_object_prototype) [''a'', ''b'', ''c'']"
    by (simp add: es5_object_prototype_def)
  have ev: "topologicalSort es5_object_prototype 4 [''a'', ''b'', ''c''] cycle_deps =
       Some ([''c'', ''b'', ''a''], [''Circular dependency detected involving a''])"
    by code_simp
  have n: "length [''a'', ''b'', ''c''] < (9::nat)"
    by simp
  from dependency_order_terminates [OF n, of es5_object_prototype cycle_deps] obtain order' conflicts where
    "topologicalSort es5_object_prototype 9 [''a'', ''b'', ''c''] cycle_deps = Some (order', conflicts)"
    "topologicalSort es5_object_prototype (Suc (length [''a'', ''b'', ''c''])) [''a'', ''b'', ''c''] cycle_deps = Some (order', conflicts)"
    by auto
  moreover have "Suc (length [''a'', ''b'', ''c'']) = 4"
    by simp
  ultimately have "topologicalSort es5_object_prototype 9 [''a'', ''b'', ''c''] cycle_deps =
       topologicalSort es5_object_prototype 4 [''a'', ''b'', ''c''] cycle_deps"
    by metis
  with nac np ev show ?thesis by simp
qed

end
